theory Spec2Isabelle
  imports Main
begin

section \<open>The Nussinov folding program (nussinov.cpp)\<close>

text \<open>
  The program predicts an RNA secondary structure: \<open>OPT\<close> scores a window of the sequence,
  \<open>nussinov\<close> stores the scores in a square table and mirrors it, \<open>traceback\<close> walks the
  table and appends base pairs to a structure, and \<open>write_structure\<close> renders the pairs in
  dot-bracket form.

  C++ \<open>int\<close> is modelled by \<open>int\<close>: every index the program computes lies between \<open>-1\<close> and
  the sequence length \<open>N\<close>, and every score between \<open>0\<close> and \<open>N\<close>, so no operation leaves the
  32-bit range for a sequence whose \<open>N \<times> N\<close> table can be allocated. That covers the table
  that \<open>nussinov\<close> builds. \<open>traceback\<close> also adds table entries, so a property stated for
  an arbitrary table assumes \<open>small_entries\<close>, under which no sum that \<open>traceback\<close> forms
  leaves the 32-bit range (\<open>small_entries_sums\<close>). Reading or writing a
  vector or string outside its bounds is undefined behaviour in C++; the model makes it
  the value \<open>None\<close>, and every function that indexes returns an \<open>option\<close>.
\<close>

type_synonym table = "int list list"
type_synonym "structure" = "(int \<times> int) list"

subsection \<open>Indexing\<close>

text \<open>
  \<open>sequence[t]\<close> on a \<open>const string\<close>: positions \<open>0 .. N - 1\<close> hold the symbols, position \<open>N\<close>
  reads the terminating null character, anything else is out of bounds.
\<close>

definition char_at :: "string \<Rightarrow> int \<Rightarrow> char option" where
  "char_at sequence t =
     (if 0 \<le> t \<and> t < int (length sequence) then Some (sequence ! nat t)
      else if t = int (length sequence) then Some (CHR 0x00)
      else None)"

text \<open>\<open>DP[i][j]\<close> as a value.\<close>

definition cell :: "table \<Rightarrow> int \<Rightarrow> int \<Rightarrow> int option" where
  "cell DP i j =
     (if 0 \<le> i \<and> i < int (length DP) \<and> 0 \<le> j \<and> j < int (length (DP ! nat i))
      then Some (DP ! nat i ! nat j) else None)"

text \<open>\<open>DP[i][j] = v\<close>.\<close>

definition put_cell :: "table \<Rightarrow> int \<Rightarrow> int \<Rightarrow> int \<Rightarrow> table option" where
  "put_cell DP i j v =
     (if 0 \<le> i \<and> i < int (length DP) \<and> 0 \<le> j \<and> j < int (length (DP ! nat i))
      then Some (DP[nat i := (DP ! nat i)[nat j := v]]) else None)"

text \<open>\<open>dot_bracket[p] = c\<close> on a non-const string.\<close>

definition put_char :: "string \<Rightarrow> int \<Rightarrow> char \<Rightarrow> string option" where
  "put_char d p c =
     (if 0 \<le> p \<and> p < int (length d) then Some (d[nat p := c]) else None)"

subsection \<open>Counting loops\<close>

text \<open>
  \<open>for (int t = lo; t < hi; ++t) body\<close>, for a body that neither breaks nor changes \<open>t\<close> or
  \<open>hi\<close>: the body maps the loop's state to the next one, and a failing body ends the loop.
\<close>

function for_loop :: "int \<Rightarrow> int \<Rightarrow> (int \<Rightarrow> 's \<Rightarrow> 's option) \<Rightarrow> 's \<Rightarrow> 's option" where
  "for_loop t hi body s =
     (if t < hi
      then (case body t s of None \<Rightarrow> None | Some s' \<Rightarrow> for_loop (t + 1) hi body s')
      else Some s)"
  by pat_completeness auto
termination
  by (relation "measure (\<lambda>(t, hi, body, s). nat (hi - t))") auto

declare for_loop.simps [simp del]

lemma for_loop_cong [fundef_cong]:
  assumes "lo = lo'" "hi = hi'" "s = s'"
    and "\<And>t x. lo' \<le> t \<Longrightarrow> t < hi' \<Longrightarrow> body t x = body' t x"
  shows "for_loop lo hi body s = for_loop lo' hi' body' s'"
proof -
  have "for_loop lo' hi' body s' = for_loop lo' hi' body' s'"
    using assms(4)
  proof (induction lo' hi' body s' rule: for_loop.induct)
    case (1 t hi body s)
    show ?case
    proof (cases "t < hi")
      case True
      have b: "body t s = body' t s" using "1.prems" True by simp
      show ?thesis
      proof (cases "body t s")
        case None
        then show ?thesis using b True
          by (simp add: for_loop.simps [of t hi])
      next
        case (Some s1)
        have ih: "for_loop (t + 1) hi body s1 = for_loop (t + 1) hi body' s1"
          using "1.IH" [OF True Some] "1.prems" by simp
        have l: "for_loop t hi body s = for_loop (t + 1) hi body s1"
          using True Some by (subst for_loop.simps) simp
        have r: "for_loop t hi body' s = for_loop (t + 1) hi body' s1"
          using True Some b by (subst for_loop.simps) simp
        show ?thesis using l r ih by simp
      qed
    next
      case False
      then show ?thesis by (simp add: for_loop.simps [of t hi])
    qed
  qed
  then show ?thesis using assms(1-3) by simp
qed

subsection \<open>pair_check\<close>

definition pair_check :: "char \<Rightarrow> char \<Rightarrow> bool" where
  "pair_check a b \<longleftrightarrow>
     (a = CHR ''A'' \<and> b = CHR ''U'') \<or> (a = CHR ''U'' \<and> b = CHR ''A'') \<or>
     (a = CHR ''C'' \<and> b = CHR ''G'') \<or> (a = CHR ''G'' \<and> b = CHR ''C'')"

subsection \<open>OPT\<close>

text \<open>
  The score of the window \<open>i .. j\<close>. The loop collects the candidates in the vector
  \<open>pairing\<close>; \<open>max_element\<close> of the non-empty vector is \<open>Max\<close> of its elements. The table
  \<open>DP\<close> is a parameter, as in the source, where the body never reads or writes it.
\<close>

function OPT :: "int \<Rightarrow> int \<Rightarrow> string \<Rightarrow> table \<Rightarrow> int option" where
  "OPT i j sequence DP =
     (if i \<ge> j - 4 then Some 0
      else
        (case OPT i (j - 1) sequence DP of None \<Rightarrow> None
         | Some unpaired \<Rightarrow>
            (case for_loop i (j - 4)
                    (\<lambda>t pairing.
                       case char_at sequence t of None \<Rightarrow> None
                       | Some a \<Rightarrow>
                          (case char_at sequence j of None \<Rightarrow> None
                           | Some b \<Rightarrow>
                              if pair_check a b
                              then (case OPT i (t - 1) sequence DP of None \<Rightarrow> None
                                    | Some l \<Rightarrow>
                                       (case OPT (t + 1) (j - 1) sequence DP of None \<Rightarrow> None
                                        | Some r \<Rightarrow> Some (pairing @ [1 + l + r])))
                              else Some pairing))
                    []
             of None \<Rightarrow> None
             | Some pairing \<Rightarrow>
                 (let pairing = (if pairing = [] then pairing @ [0] else pairing);
                      paired = Max (set pairing)
                  in Some (max unpaired paired)))))"
  by pat_completeness auto
termination
  by (relation "measure (\<lambda>(i, j, sequence, DP). nat (j - i))") auto

declare OPT.simps [simp del]

subsection \<open>traceback\<close>

text \<open>
  \<open>traceback\<close> appends to \<open>structure\<close> through a reference; the model takes the structure
  and returns the extended one. \<open>traceback_loop\<close> is the \<open>for\<close> loop of the last branch,
  entered at \<open>k\<close>: a \<open>break\<close> leaves the loop, so the branch that breaks returns the
  structure it has built, and the other branches go on with \<open>k + 1\<close>. The sums
  \<open>DP[k + 1][j - 1] + 1\<close> and \<open>DP[i][k - 1] + DP[k + 1][j - 1] + 1\<close> are sums of integers
  here and of 32-bit integers in the source: the two agree as long as no sum leaves the
  32-bit range, which holds on the table of \<open>nussinov\<close> and on every table with
  \<open>small_entries\<close>.
\<close>

function traceback :: "int \<Rightarrow> int \<Rightarrow> structure \<Rightarrow> table \<Rightarrow> string \<Rightarrow> structure option"
  and traceback_loop :: "int \<Rightarrow> int \<Rightarrow> int \<Rightarrow> structure \<Rightarrow> table \<Rightarrow> string \<Rightarrow> structure option"
where
  "traceback i j structure DP sequence =
     (if j \<le> i then Some structure
      else
        (case cell DP i j of None \<Rightarrow> None
         | Some x \<Rightarrow>
            (case cell DP i (j - 1) of None \<Rightarrow> None
             | Some y \<Rightarrow>
                if x = y then traceback i (j - 1) structure DP sequence
                else traceback_loop i j i structure DP sequence)))"
| "traceback_loop i j k structure DP sequence =
     (if k < j - 4
      then
        (case char_at sequence k of None \<Rightarrow> None
         | Some a \<Rightarrow>
            (case char_at sequence j of None \<Rightarrow> None
             | Some b \<Rightarrow>
                if pair_check a b
                then
                  (if k - 1 < 0
                   then
                     (case cell DP i j of None \<Rightarrow> None
                      | Some x \<Rightarrow>
                         (case cell DP (k + 1) (j - 1) of None \<Rightarrow> None
                          | Some r \<Rightarrow>
                             if x = r + 1
                             then traceback (k + 1) (j - 1) (structure @ [(k, j)]) DP sequence
                             else traceback_loop i j (k + 1) structure DP sequence))
                   else
                     (case cell DP i j of None \<Rightarrow> None
                      | Some x \<Rightarrow>
                         (case cell DP i (k - 1) of None \<Rightarrow> None
                          | Some l \<Rightarrow>
                             (case cell DP (k + 1) (j - 1) of None \<Rightarrow> None
                              | Some r \<Rightarrow>
                                 if x = l + r + 1
                                 then
                                   (case traceback i (k - 1) (structure @ [(k, j)]) DP sequence of
                                      None \<Rightarrow> None
                                    | Some structure' \<Rightarrow>
                                        traceback (k + 1) (j - 1) structure' DP sequence)
                                 else traceback_loop i j (k + 1) structure DP sequence))))
                else traceback_loop i j (k + 1) structure DP sequence))
      else Some structure)"
  by pat_completeness auto
termination
  by (relation "inv_image (less_than <*lex*> less_than)
        (\<lambda>x. case x of
           Inl (i, j, structure, DP, sequence) \<Rightarrow> (nat (j - i), nat (j - i) + 1)
         | Inr (i, j, k, structure, DP, sequence) \<Rightarrow> (nat (max (j - i) (j - k)), nat (j - 4 - k)))")
     auto

declare traceback.simps [simp del] traceback_loop.simps [simp del]

subsection \<open>write_structure\<close>

text \<open>The range-\<open>for\<close> over the pairs, then the function that starts it from the all-dot string.\<close>

fun write_pairs :: "structure \<Rightarrow> string \<Rightarrow> string option" where
  "write_pairs [] dot_bracket = Some dot_bracket"
| "write_pairs (s # rest) dot_bracket =
     (case put_char dot_bracket (min (fst s) (snd s)) (CHR ''('') of None \<Rightarrow> None
      | Some d1 \<Rightarrow>
         (case put_char d1 (max (fst s) (snd s)) (CHR '')'') of None \<Rightarrow> None
          | Some d2 \<Rightarrow> write_pairs rest d2))"

definition write_structure :: "string \<Rightarrow> structure \<Rightarrow> string option" where
  "write_structure sequence structure =
     write_pairs structure (replicate (length sequence) (CHR ''.''))"

subsection \<open>initialize\<close>

text \<open>A vector of negative size cannot be constructed.\<close>

definition initialize :: "int \<Rightarrow> table option" where
  "initialize N =
     (if N < 0 then None
      else
        for_loop 0 4
          (\<lambda>k DP. for_loop 0 (N - k) (\<lambda>i DP. let j = i + k in put_cell DP i j 0) DP)
          (replicate (nat N) (replicate (nat N) 0)))"

subsection \<open>nussinov\<close>

text \<open>
  The two table loops of \<open>nussinov\<close>, the table they leave, and the function itself, which
  returns the structure. The loop that prints the table changes nothing and is left out.
\<close>

definition nussinov_fill :: "int \<Rightarrow> string \<Rightarrow> table \<Rightarrow> table option" where
  "nussinov_fill N sequence DP0 =
     for_loop 5 N
       (\<lambda>k DP. for_loop 0 (N - k)
                 (\<lambda>i DP. let j = i + k in
                    (case OPT i j sequence DP of None \<Rightarrow> None
                     | Some v \<Rightarrow> put_cell DP i j v))
                 DP)
       DP0"

definition nussinov_mirror :: "int \<Rightarrow> table \<Rightarrow> table option" where
  "nussinov_mirror N DP0 =
     for_loop 0 N
       (\<lambda>i DP. for_loop 0 i
                 (\<lambda>j DP. case cell DP j i of None \<Rightarrow> None | Some v \<Rightarrow> put_cell DP i j v)
                 DP)
       DP0"

definition nussinov_table :: "string \<Rightarrow> table option" where
  "nussinov_table sequence =
     (let N = int (length sequence) in
      case initialize N of None \<Rightarrow> None
      | Some DP \<Rightarrow>
         (case nussinov_fill N sequence DP of None \<Rightarrow> None
          | Some DP \<Rightarrow> nussinov_mirror N DP))"

definition nussinov :: "string \<Rightarrow> structure option" where
  "nussinov sequence =
     (let N = int (length sequence) in
      case nussinov_table sequence of None \<Rightarrow> None
      | Some DP \<Rightarrow> traceback 0 (N - 1) [] DP sequence)"

subsection \<open>main\<close>

text \<open>
  What \<open>main\<close> computes from the sequence it has read, before printing: the structure and
  its dot-bracket string.
\<close>

definition main_output :: "string \<Rightarrow> (structure \<times> string) option" where
  "main_output sequence =
     (case nussinov sequence of None \<Rightarrow> None
      | Some structure \<Rightarrow>
         (case write_structure sequence structure of None \<Rightarrow> None
          | Some dot_brac \<Rightarrow> Some (structure, dot_brac)))"

subsection \<open>Notions used to state the properties\<close>

text \<open>
  The value \<open>OPT\<close> returns for a window, as a number (the table argument plays no part
  in it, see \<open>OPT_table_irrelevant\<close>), and the values of the candidates that the loop of
  \<open>OPT\<close> collects for the window.
\<close>

definition score :: "string \<Rightarrow> int \<Rightarrow> int \<Rightarrow> int" where
  "score sequence i j = the (OPT i j sequence [])"

definition candidates :: "string \<Rightarrow> int \<Rightarrow> int \<Rightarrow> int set" where
  "candidates sequence i j =
     (\<lambda>t. 1 + score sequence i (t - 1) + score sequence (t + 1) (j - 1)) `
       {t. i \<le> t \<and> t \<le> j - 5 \<and> pair_check (sequence ! nat t) (sequence ! nat j)}"

text \<open>
  A table of \<open>N\<close> rows of \<open>N\<close> cells, and a position inside it.
\<close>

definition square :: "int \<Rightarrow> table \<Rightarrow> bool" where
  "square N DP \<longleftrightarrow> int (length DP) = N \<and> (\<forall>row \<in> set DP. int (length row) = N)"

definition inside :: "int \<Rightarrow> int \<Rightarrow> int \<Rightarrow> bool" where
  "inside N a b \<longleftrightarrow> 0 \<le> a \<and> a < N \<and> 0 \<le> b \<and> b < N"

text \<open>
  The range of a 32-bit \<open>int\<close>, and a table whose entries all lie between \<open>-2^30\<close> and
  \<open>2^30 - 1\<close>: the sum of two such entries, and that sum plus one, is in the 32-bit range.
\<close>

definition int32 :: "int \<Rightarrow> bool" where
  "int32 v \<longleftrightarrow> - 2147483648 \<le> v \<and> v \<le> 2147483647"

definition small_entries :: "table \<Rightarrow> bool" where
  "small_entries DP \<longleftrightarrow>
     (\<forall>row \<in> set DP. \<forall>v \<in> set row. - 1073741824 \<le> v \<and> v \<le> 1073741823)"

text \<open>
  \<open>Score DP i j\<close> is the entry of the table for the window \<open>i .. j\<close>, for a position inside
  the table. \<open>recurrence\<close> is the Nussinov recurrence over a score function \<open>S\<close>: 0 for
  \<open>j - i \<le> 4\<close>, otherwise the maximum of \<open>S i (j - 1)\<close> and of
  \<open>1 + S i (t - 1) + S (t + 1) (j - 1)\<close> over the \<open>t\<close> in \<open>[i, j - 5]\<close> whose symbol is
  compatible with the symbol at \<open>j\<close>, the left term being 0 for \<open>t = i\<close>.
\<close>

definition Score :: "table \<Rightarrow> int \<Rightarrow> int \<Rightarrow> int" where
  "Score DP i j = DP ! nat i ! nat j"

definition recurrence :: "string \<Rightarrow> (int \<Rightarrow> int \<Rightarrow> int) \<Rightarrow> int \<Rightarrow> int \<Rightarrow> int" where
  "recurrence sequence S i j =
     (if j - i \<le> 4 then 0
      else Max (set (S i (j - 1) #
                  map (\<lambda>t. 1 + (if t = i then 0 else S i (t - 1)) + S (t + 1) (j - 1))
                    (filter (\<lambda>t. pair_check (sequence ! nat t) (sequence ! nat j)) [i..j - 5]))))"

text \<open>
  The test that the loop of \<open>traceback\<close> makes at a split point \<open>k\<close> of the window
  \<open>i .. j\<close>, on table entries read inside the table, and what the loop does when the test
  succeeds: it appends \<open>(k, j)\<close> and traces the two sub-windows. For \<open>k - 1 < 0\<close> the source
  leaves the call for the left sub-window out, which returns at once in any case. The sum
  of the test is the sum of the source where it stays in the 32-bit range, as it does on a
  table with \<open>small_entries\<close>.
\<close>

definition split_test :: "table \<Rightarrow> string \<Rightarrow> int \<Rightarrow> int \<Rightarrow> int \<Rightarrow> bool" where
  "split_test DP sequence i j k \<longleftrightarrow>
     pair_check (sequence ! nat k) (sequence ! nat j) \<and>
     Score DP i j = (if k - 1 < 0 then 0 else Score DP i (k - 1)) + Score DP (k + 1) (j - 1) + 1"

definition emit :: "int \<Rightarrow> int \<Rightarrow> int \<Rightarrow> structure \<Rightarrow> table \<Rightarrow> string \<Rightarrow> structure option" where
  "emit i j k structure DP sequence =
     (case traceback i (k - 1) (structure @ [(k, j)]) DP sequence of None \<Rightarrow> None
      | Some structure' \<Rightarrow> traceback (k + 1) (j - 1) structure' DP sequence)"

text \<open>
  The indices of a structure in the order of the pairs; pairs that do not cross; and a
  structure that lies in the window \<open>i .. j\<close>: no index twice, every pair \<open>(a, b)\<close> inside the
  window with \<open>b - a \<ge> 5\<close> and symbols accepted by \<open>pair_check\<close>, no two pairs crossing.
\<close>

definition indices :: "structure \<Rightarrow> int list" where
  "indices ps = concat (map (\<lambda>(a, b). [a, b]) ps)"

definition noncrossing :: "structure \<Rightarrow> bool" where
  "noncrossing ps \<longleftrightarrow> (\<forall>(a, b) \<in> set ps. \<forall>(c, d) \<in> set ps. a < c \<longrightarrow> b < c \<or> d < b)"

definition within :: "string \<Rightarrow> int \<Rightarrow> int \<Rightarrow> structure \<Rightarrow> bool" where
  "within sequence i j ps \<longleftrightarrow>
     distinct (indices ps) \<and>
     (\<forall>(a, b) \<in> set ps. i \<le> a \<and> a + 5 \<le> b \<and> b \<le> j \<and>
        pair_check (sequence ! nat a) (sequence ! nat b)) \<and>
     noncrossing ps"

text \<open>
  The Pairing invariant: no index in two pairs; every pair \<open>(i, j)\<close> inside the sequence
  with \<open>j - i \<ge> 5\<close> and symbols that form a Watson-Crick pair; no two pairs crossing.
\<close>

definition watson_crick :: "(char \<times> char) set" where
  "watson_crick = {(CHR ''A'', CHR ''U''), (CHR ''U'', CHR ''A''),
                   (CHR ''C'', CHR ''G''), (CHR ''G'', CHR ''C'')}"

definition pairing_invariant :: "string \<Rightarrow> structure \<Rightarrow> bool" where
  "pairing_invariant sequence ps \<longleftrightarrow>
     distinct (indices ps) \<and>
     (\<forall>(i, j) \<in> set ps. 0 \<le> i \<and> j < int (length sequence) \<and> j - i \<ge> 5 \<and>
        (sequence ! nat i, sequence ! nat j) \<in> watson_crick) \<and>
     noncrossing ps"

text \<open>
  A split point \<open>t\<close> of the window \<open>i .. j\<close> that satisfies the predicate and the optimality
  equation, the left term being 0 for \<open>t = i\<close>.
\<close>

definition optimal_split :: "table \<Rightarrow> string \<Rightarrow> int \<Rightarrow> int \<Rightarrow> int \<Rightarrow> bool" where
  "optimal_split DP sequence i j t \<longleftrightarrow>
     pair_check (sequence ! nat t) (sequence ! nat j) \<and>
     Score DP i j = (if t = i then 0 else Score DP i (t - 1)) + Score DP (t + 1) (j - 1) + 1"

section \<open>Lemmas\<close>

subsection \<open>Counting loops\<close>

lemma for_loop_empty: "hi \<le> t \<Longrightarrow> for_loop t hi body s = Some s"
  by (simp add: for_loop.simps [of t hi])

lemma for_loop_step:
  "t < hi \<Longrightarrow> body t s = Some s1 \<Longrightarrow> for_loop t hi body s = for_loop (t + 1) hi body s1"
  by (simp add: for_loop.simps [of t hi])

lemma for_loop_rule:
  assumes "I t s"
    and "\<And>t' s. t \<le> t' \<Longrightarrow> t' < hi \<Longrightarrow> I t' s \<Longrightarrow> \<exists>s'. body t' s = Some s' \<and> I (t' + 1) s'"
  shows "\<exists>s'. for_loop t hi body s = Some s' \<and> I (max t hi) s'"
  using assms
proof (induction t hi body s rule: for_loop.induct)
  case (1 t hi body s)
  show ?case
  proof (cases "t < hi")
    case True
    obtain s1 where s1: "body t s = Some s1" "I (t + 1) s1"
      using "1.prems"(2) [of t s] True "1.prems"(1) by auto
    have "\<exists>s'. for_loop (t + 1) hi body s1 = Some s' \<and> I (max (t + 1) hi) s'"
    proof (rule "1.IH" [OF True s1(1) s1(2)])
      fix t' s
      assume "t + 1 \<le> t'" "t' < hi" "I t' s"
      then show "\<exists>s'. body t' s = Some s' \<and> I (t' + 1) s'"
        using "1.prems"(2) [of t' s] by simp
    qed
    moreover have "max (t + 1) hi = max t hi" using True by simp
    ultimately show ?thesis using for_loop_step [of t hi body s s1] True s1(1) by simp
  next
    case False
    then show ?thesis using "1.prems"(1) by (simp add: for_loop_empty max_def)
  qed
qed

subsection \<open>OPT\<close>

lemma OPT_table_irrelevant: "OPT i j sequence DP = OPT i j sequence DP'"
proof (induction "nat (j - i)" arbitrary: i j rule: less_induct)
  case less
  show ?case
  proof (cases "i \<ge> j - 4")
    case True
    then show ?thesis by (simp add: OPT.simps [of i j])
  next
    case False
    have u: "OPT i (j - 1) sequence DP = OPT i (j - 1) sequence DP'"
      using False by (intro less) simp
    have l: "\<And>t. i \<le> t \<Longrightarrow> t < j - 4 \<Longrightarrow> OPT i (t - 1) sequence DP = OPT i (t - 1) sequence DP'"
      by (intro less) simp
    have r: "\<And>t. i \<le> t \<Longrightarrow> t < j - 4 \<Longrightarrow>
               OPT (t + 1) (j - 1) sequence DP = OPT (t + 1) (j - 1) sequence DP'"
      by (intro less) simp
    show ?thesis
      unfolding OPT.simps [of i j _ DP] OPT.simps [of i j _ DP'] u
      by (intro if_cong option.case_cong for_loop_cong refl) (simp_all add: l r)
  qed
qed

lemma score_eq: "OPT i j sequence DP = Some v \<Longrightarrow> score sequence i j = v"
  using OPT_table_irrelevant [of i j sequence DP "[]"] by (simp add: score_def)

lemma OPT_base: "j - 4 \<le> i \<Longrightarrow> OPT i j sequence DP = Some 0"
  by (simp add: OPT.simps [of i j])

lemma score_base: "j - 4 \<le> i \<Longrightarrow> score sequence i j = 0"
  by (simp add: score_def OPT_base)

lemma char_at_in: "0 \<le> t \<Longrightarrow> t < int (length sequence) \<Longrightarrow> char_at sequence t = Some (sequence ! nat t)"
  by (simp add: char_at_def)

lemma upto_snoc: "i \<le> t \<Longrightarrow> [i..t] = [i..t - 1] @ [t]"
  using upto_rec2 [of i t] by simp

lemma OPT_loop:
  assumes i: "0 \<le> i" and j: "j < int (length sequence)"
    and sub: "\<And>t. i \<le> t \<Longrightarrow> t < j - 4 \<Longrightarrow>
               (\<exists>l. OPT i (t - 1) sequence DP = Some l) \<and>
               (\<exists>r. OPT (t + 1) (j - 1) sequence DP = Some r)"
  shows "for_loop i (j - 4)
           (\<lambda>t pairing.
              case char_at sequence t of None \<Rightarrow> None
              | Some a \<Rightarrow>
                 (case char_at sequence j of None \<Rightarrow> None
                  | Some b \<Rightarrow>
                     if pair_check a b
                     then (case OPT i (t - 1) sequence DP of None \<Rightarrow> None
                           | Some l \<Rightarrow>
                              (case OPT (t + 1) (j - 1) sequence DP of None \<Rightarrow> None
                               | Some r \<Rightarrow> Some (pairing @ [1 + l + r])))
                     else Some pairing))
           []
         = Some (map (\<lambda>t. 1 + score sequence i (t - 1) + score sequence (t + 1) (j - 1))
                   (filter (\<lambda>t. pair_check (sequence ! nat t) (sequence ! nat j)) [i..j - 5]))"
    (is "for_loop i (j - 4) ?body [] = Some (map ?cand (filter ?ok [i..j - 5]))")
proof (cases "i < j - 4")
  case False
  then show ?thesis by (simp add: for_loop_empty)
next
  case True
  let ?I = "\<lambda>t pairing. t \<le> j - 4 \<and> pairing = map ?cand (filter ?ok [i..t - 1])"
  have "\<exists>s'. for_loop i (j - 4) ?body [] = Some s' \<and> ?I (max i (j - 4)) s'"
  proof (rule for_loop_rule [where I = ?I])
    show "?I i []" using True by simp
  next
    fix t pairing
    assume t: "i \<le> t" "t < j - 4" and inv: "?I t pairing"
    obtain l r where l: "OPT i (t - 1) sequence DP = Some l"
      and r: "OPT (t + 1) (j - 1) sequence DP = Some r"
      using sub [OF t] by blast
    have ct: "char_at sequence t = Some (sequence ! nat t)"
      using t i j by (intro char_at_in) simp_all
    have cj: "char_at sequence j = Some (sequence ! nat j)"
      using t i j by (intro char_at_in) simp_all
    have up: "[i..t] = [i..t - 1] @ [t]" by (rule upto_snoc [OF t(1)])
    show "\<exists>s'. ?body t pairing = Some s' \<and> ?I (t + 1) s'"
      using t inv by (simp add: ct cj l r up score_eq [OF l] score_eq [OF r])
  qed
  then show ?thesis using True by (simp add: max_def)
qed

lemma OPT_total:
  "0 \<le> i \<Longrightarrow> j < int (length sequence) \<Longrightarrow> \<exists>v. OPT i j sequence DP = Some v \<and> 0 \<le> v"
proof (induction "nat (j - i)" arbitrary: i j rule: less_induct)
  case less
  show ?case
  proof (cases "i \<ge> j - 4")
    case True
    then show ?thesis by (simp add: OPT_base)
  next
    case False
    obtain u where u: "OPT i (j - 1) sequence DP = Some u" "0 \<le> u"
      using less.hyps [of "j - 1" i] less.prems False by auto
    have sub: "(\<exists>l. OPT i (t - 1) sequence DP = Some l) \<and>
               (\<exists>r. OPT (t + 1) (j - 1) sequence DP = Some r)"
      if "i \<le> t" "t < j - 4" for t
      using less.hyps [of "t - 1" i] less.hyps [of "j - 1" "t + 1"] less.prems that
      by fastforce
    show ?thesis
      using False u
      by (simp add: OPT.simps [of i j] OPT_loop [OF less.prems sub] Let_def max_def)
  qed
qed

lemma OPT_score:
  "0 \<le> i \<Longrightarrow> j < int (length sequence) \<Longrightarrow> OPT i j sequence DP = Some (score sequence i j)"
  using OPT_total [of i j sequence DP] score_eq [of i j sequence DP] by auto

lemma score_nonneg: "0 \<le> i \<Longrightarrow> j < int (length sequence) \<Longrightarrow> 0 \<le> score sequence i j"
  using OPT_total [of i j sequence "[]"] score_eq [of i j sequence "[]"] by auto

lemma finite_candidates: "finite (candidates sequence i j)"
proof -
  have "{t. i \<le> t \<and> t \<le> j - 5 \<and> pair_check (sequence ! nat t) (sequence ! nat j)} \<subseteq> {i..j - 5}"
    by auto
  then have "finite {t. i \<le> t \<and> t \<le> j - 5 \<and> pair_check (sequence ! nat t) (sequence ! nat j)}"
    by (rule finite_subset) simp
  then show ?thesis by (simp add: candidates_def)
qed

lemma score_rec:
  assumes "0 \<le> i" "i < j - 4" "j < int (length sequence)"
  shows "score sequence i j = Max (insert (score sequence i (j - 1)) (candidates sequence i j))"
proof -
  have sub: "(\<exists>l. OPT i (t - 1) sequence [] = Some l) \<and>
             (\<exists>r. OPT (t + 1) (j - 1) sequence [] = Some r)"
    if "i \<le> t" "t < j - 4" for t
    using OPT_total [of i "t - 1" sequence "[]"] OPT_total [of "t + 1" "j - 1" sequence "[]"]
      assms that by fastforce
  have u: "OPT i (j - 1) sequence [] = Some (score sequence i (j - 1))"
    using assms by (intro OPT_score) simp_all
  have un: "0 \<le> score sequence i (j - 1)"
    using assms by (intro score_nonneg) simp_all
  let ?ps = "map (\<lambda>t. 1 + score sequence i (t - 1) + score sequence (t + 1) (j - 1))
               (filter (\<lambda>t. pair_check (sequence ! nat t) (sequence ! nat j)) [i..j - 5])"
  have set_ps: "set ?ps = candidates sequence i j"
    by (auto simp: candidates_def)
  have val: "OPT i j sequence [] =
      Some (max (score sequence i (j - 1)) (Max (set (if ?ps = [] then ?ps @ [0] else ?ps))))"
    using assms(2)
    by (simp add: OPT.simps [of i j] OPT_loop [OF assms(1) assms(3) sub] u Let_def)
  show ?thesis
  proof (cases "?ps = []")
    case True
    then have "candidates sequence i j = {}" using set_ps by (metis set_empty)
    then show ?thesis using val True un by (simp add: score_def max_def)
  next
    case False
    then have ne: "candidates sequence i j \<noteq> {}" using set_ps by (metis set_empty)
    have "Max (insert (score sequence i (j - 1)) (candidates sequence i j))
            = max (score sequence i (j - 1)) (Max (candidates sequence i j))"
      using finite_candidates ne by (rule Max_insert)
    then show ?thesis using val False set_ps by (simp add: score_def)
  qed
qed

subsection \<open>The score table\<close>

lemma cell_square:
  "square N DP \<Longrightarrow> inside N i j \<Longrightarrow> cell DP i j = Some (DP ! nat i ! nat j)"
  by (auto simp: square_def inside_def cell_def)

lemma cell_outside:
  "square N DP \<Longrightarrow> \<not> inside N i j \<Longrightarrow> cell DP i j = None"
  by (auto simp: square_def inside_def cell_def)

lemma put_cell_square:
  assumes "square N DP" "inside N i j"
  shows "\<exists>DP'. put_cell DP i j v = Some DP' \<and> square N DP' \<and>
           (\<forall>a b. cell DP' a b = (if a = i \<and> b = j then Some v else cell DP a b))"
proof -
  let ?DP' = "DP[nat i := (DP ! nat i)[nat j := v]]"
  have len: "int (length DP) = N" and rows: "\<And>n. n < length DP \<Longrightarrow> int (length (DP ! n)) = N"
    using assms(1) by (auto simp: square_def)
  have rng: "0 \<le> i" "i < N" "0 \<le> j" "j < N" using assms(2) by (auto simp: inside_def)
  have ni: "nat i < length DP" using rng len by simp
  have p: "put_cell DP i j v = Some ?DP'"
    using rng len rows [OF ni] by (simp add: put_cell_def)
  have sq: "square N ?DP'"
    unfolding square_def
  proof (intro conjI ballI)
    show "int (length ?DP') = N" using len by simp
  next
    fix row assume "row \<in> set ?DP'"
    then have "row \<in> insert ((DP ! nat i)[nat j := v]) (set DP)"
      using set_update_subset_insert by fastforce
    then show "int (length row) = N"
      using rows [OF ni] assms(1) by (auto simp: square_def)
  qed
  have c: "cell ?DP' a b = (if a = i \<and> b = j then Some v else cell DP a b)" for a b
  proof (cases "inside N a b")
    case False
    then show ?thesis using cell_outside [OF sq False] cell_outside [OF assms(1) False] assms(2)
      by auto
  next
    case True
    then have ab: "0 \<le> a" "a < N" "0 \<le> b" "b < N" by (auto simp: inside_def)
    have na: "nat a < length DP" using ab len by simp
    show ?thesis
      using ab rng len rows [OF na] rows [OF ni]
      by (auto simp: cell_square [OF sq True] cell_square [OF assms(1) True] nth_list_update)
  qed
  show ?thesis using p sq c by blast
qed

lemma initialize_zero:
  assumes "0 \<le> N"
  shows "\<exists>DP. initialize N = Some DP \<and> square N DP \<and>
           (\<forall>a b. inside N a b \<longrightarrow> cell DP a b = Some 0)"
proof -
  let ?J = "\<lambda>DP. square N DP \<and> (\<forall>a b. inside N a b \<longrightarrow> cell DP a b = Some 0)"
  let ?DP0 = "replicate (nat N) (replicate (nat N) (0::int))"
  have sq0: "square N ?DP0" using assms by (simp add: square_def)
  have J0: "?J ?DP0"
  proof (intro conjI allI impI)
    show "square N ?DP0" by (rule sq0)
  next
    fix a b assume "inside N a b"
    then show "cell ?DP0 a b = Some 0"
      using cell_square [OF sq0, of a b] by (simp add: inside_def)
  qed
  have inner: "\<exists>DP'. for_loop 0 (N - k) (\<lambda>i DP. let j = i + k in put_cell DP i j 0) DP = Some DP'
                  \<and> ?J DP'"
    if k: "0 \<le> k" and J: "?J DP" for k DP
  proof -
    have "\<exists>DP'. for_loop 0 (N - k) (\<lambda>i DP. let j = i + k in put_cell DP i j 0) DP = Some DP'
            \<and> (\<lambda>i DP. ?J DP) (max 0 (N - k)) DP'"
    proof (rule for_loop_rule [where I = "\<lambda>i DP. ?J DP"])
      show "?J DP" by (rule J)
    next
      fix i DP1
      assume i: "0 \<le> i" "i < N - k" and J1: "?J DP1"
      have ins: "inside N i (i + k)" using i k by (simp add: inside_def)
      obtain DP2 where "put_cell DP1 i (i + k) 0 = Some DP2" "square N DP2"
        "\<forall>a b. cell DP2 a b = (if a = i \<and> b = i + k then Some 0 else cell DP1 a b)"
        using put_cell_square [OF _ ins, of DP1 0] J1 by blast
      then show "\<exists>s'. (let j = i + k in put_cell DP1 i j 0) = Some s' \<and> ?J s'"
        using J1 by (simp add: Let_def)
    qed
    then show ?thesis by simp
  qed
  have "\<exists>DP'. for_loop 0 4
           (\<lambda>k DP. for_loop 0 (N - k) (\<lambda>i DP. let j = i + k in put_cell DP i j 0) DP) ?DP0
           = Some DP' \<and> (\<lambda>k DP. ?J DP) (max 0 4) DP'"
  proof (rule for_loop_rule [where I = "\<lambda>k DP. ?J DP"])
    show "?J ?DP0" by (rule J0)
  next
    fix k DP
    assume "(0::int) \<le> k" "k < 4" "?J DP"
    then show "\<exists>s'. for_loop 0 (N - k) (\<lambda>i DP. let j = i + k in put_cell DP i j 0) DP = Some s'
                 \<and> ?J s'"
      using inner by blast
  qed
  then show ?thesis using assms by (simp add: initialize_def)
qed

lemma fill_scores:
  assumes N: "N = int (length sequence)"
    and sq: "square N DP0"
    and zero: "\<forall>a b. inside N a b \<longrightarrow> cell DP0 a b = Some 0"
  shows "\<exists>DP. nussinov_fill N sequence DP0 = Some DP \<and> square N DP \<and>
           (\<forall>a b. inside N a b \<longrightarrow>
              cell DP a b = Some (if a \<le> b then score sequence a b else 0))"
proof -
  let ?body = "\<lambda>k i DP. let j = i + k in
                 (case OPT i j sequence DP of None \<Rightarrow> None | Some v \<Rightarrow> put_cell DP i j v)"
  let ?I' = "\<lambda>k i DP. square N DP \<and>
      (\<forall>a b. inside N a b \<longrightarrow>
         cell DP a b = Some (if a \<le> b \<and> (b - a < k \<or> (b - a = k \<and> a < i))
                             then score sequence a b else 0))"
  let ?I = "\<lambda>k DP. square N DP \<and>
      (\<forall>a b. inside N a b \<longrightarrow>
         cell DP a b = Some (if a \<le> b \<and> b - a < k then score sequence a b else 0))"
  have inner: "\<exists>DP'. for_loop 0 (N - k) (?body k) DP = Some DP' \<and> ?I (k + 1) DP'"
    if k: "5 \<le> k" "k < N" and I: "?I k DP" for k DP
  proof -
    have "\<exists>DP'. for_loop 0 (N - k) (?body k) DP = Some DP' \<and> ?I' k (max 0 (N - k)) DP'"
    proof (rule for_loop_rule [where I = "?I' k"])
      show "?I' k 0 DP"
      proof (intro conjI allI impI)
        show "square N DP" using I by simp
      next
        fix a b :: int assume ab: "inside N a b"
        have eq: "(b - a < k \<or> (b - a = k \<and> a < 0)) = (b - a < k)"
          using ab by (auto simp: inside_def)
        have c: "cell DP a b = Some (if a \<le> b \<and> b - a < k then score sequence a b else 0)"
          using I ab by blast
        show "cell DP a b = Some (if a \<le> b \<and> (b - a < k \<or> (b - a = k \<and> a < 0))
                             then score sequence a b else 0)"
          unfolding eq by (rule c)
      qed
    next
      fix i DP1
      assume i: "0 \<le> i" "i < N - k" and I1: "?I' k i DP1"
      have ins: "inside N i (i + k)" using i k by (simp add: inside_def)
      have opt: "OPT i (i + k) sequence DP1 = Some (score sequence i (i + k))"
        using i N by (intro OPT_score) simp_all
      obtain DP2 where p: "put_cell DP1 i (i + k) (score sequence i (i + k)) = Some DP2"
        and sq2: "square N DP2"
        and c2: "\<forall>a b. cell DP2 a b =
               (if a = i \<and> b = i + k then Some (score sequence i (i + k)) else cell DP1 a b)"
        using put_cell_square [OF _ ins, of DP1] I1 by blast
      have "cell DP2 a b = Some (if a \<le> b \<and> (b - a < k \<or> (b - a = k \<and> a < i + 1))
                             then score sequence a b else 0)"
        if ab: "inside N a b" for a b
      proof (cases "a = i \<and> b = i + k")
        case True
        then show ?thesis using c2 k by simp
      next
        case False
        have c: "cell DP2 a b = cell DP1 a b" using c2 False by auto
        have c1: "cell DP1 a b = Some (if a \<le> b \<and> (b - a < k \<or> (b - a = k \<and> a < i))
                             then score sequence a b else 0)"
          using I1 ab by blast
        have eq: "(b - a < k \<or> (b - a = k \<and> a < i + 1)) = (b - a < k \<or> (b - a = k \<and> a < i))"
          using False by auto
        show ?thesis unfolding eq c by (rule c1)
      qed
      then show "\<exists>s'. ?body k i DP1 = Some s' \<and> ?I' k (i + 1) s'"
        using opt p sq2 by (simp add: Let_def)
    qed
    then obtain DP' where l: "for_loop 0 (N - k) (?body k) DP = Some DP'"
      and I': "?I' k (N - k) DP'"
      using k by (auto simp: max_def)
    have "cell DP' a b = Some (if a \<le> b \<and> b - a < k + 1 then score sequence a b else 0)"
      if ab: "inside N a b" for a b
    proof -
      have eq: "(b - a < k \<or> (b - a = k \<and> a < N - k)) = (b - a < k + 1)"
        using ab by (auto simp: inside_def)
      have "cell DP' a b = Some (if a \<le> b \<and> (b - a < k \<or> (b - a = k \<and> a < N - k))
                             then score sequence a b else 0)"
        using I' ab by blast
      then show ?thesis unfolding eq .
    qed
    then show ?thesis using l I' by blast
  qed
  have I0: "?I 5 DP0"
  proof (intro conjI allI impI)
    show "square N DP0" by (rule sq)
  next
    fix a b assume ab: "inside N a b"
    have "score sequence a b = 0" if "b - a < 5" using that by (intro score_base) simp
    then have "(if a \<le> b \<and> b - a < 5 then score sequence a b else 0) = 0" by simp
    moreover have "cell DP0 a b = Some 0" using zero ab by blast
    ultimately show "cell DP0 a b = Some (if a \<le> b \<and> b - a < 5 then score sequence a b else 0)"
      by simp
  qed
  have "\<exists>DP'. for_loop 5 N (\<lambda>k DP. for_loop 0 (N - k) (?body k) DP) DP0 = Some DP'
           \<and> ?I (max 5 N) DP'"
  proof (rule for_loop_rule [where I = ?I])
    show "?I 5 DP0" by (rule I0)
  next
    fix k DP
    assume "5 \<le> k" "k < N" "?I k DP"
    then show "\<exists>s'. for_loop 0 (N - k) (?body k) DP = Some s' \<and> ?I (k + 1) s'"
      by (rule inner)
  qed
  then obtain DP where f: "nussinov_fill N sequence DP0 = Some DP" and I: "?I (max 5 N) DP"
    by (auto simp: nussinov_fill_def)
  have "cell DP a b = Some (if a \<le> b then score sequence a b else 0)" if ab: "inside N a b" for a b
  proof -
    have eq: "(a \<le> b \<and> b - a < max 5 N) = (a \<le> b)" using ab by (auto simp: inside_def)
    have "cell DP a b = Some (if a \<le> b \<and> b - a < max 5 N then score sequence a b else 0)"
      using I ab by blast
    then show ?thesis unfolding eq .
  qed
  then show ?thesis using f I by blast
qed

lemma mirror_cells:
  assumes sq: "square N DP0"
  shows "\<exists>DP. nussinov_mirror N DP0 = Some DP \<and> square N DP \<and>
           (\<forall>a b. inside N a b \<longrightarrow> cell DP a b = (if b < a then cell DP0 b a else cell DP0 a b))"
proof -
  let ?body = "\<lambda>i j DP. case cell DP j i of None \<Rightarrow> None | Some v \<Rightarrow> put_cell DP i j v"
  let ?I' = "\<lambda>i j DP. square N DP \<and>
      (\<forall>a b. inside N a b \<longrightarrow>
         cell DP a b = (if b < a \<and> (a < i \<or> (a = i \<and> b < j)) then cell DP0 b a else cell DP0 a b))"
  let ?I = "\<lambda>i DP. square N DP \<and>
      (\<forall>a b. inside N a b \<longrightarrow>
         cell DP a b = (if b < a \<and> a < i then cell DP0 b a else cell DP0 a b))"
  have inner: "\<exists>DP'. for_loop 0 i (?body i) DP = Some DP' \<and> ?I (i + 1) DP'"
    if i: "0 \<le> i" "i < N" and I: "?I i DP" for i DP
  proof -
    have "\<exists>DP'. for_loop 0 i (?body i) DP = Some DP' \<and> ?I' i (max 0 i) DP'"
    proof (rule for_loop_rule [where I = "?I' i"])
      show "?I' i 0 DP"
      proof (intro conjI allI impI)
        show "square N DP" using I by simp
      next
        fix a b :: int assume ab: "inside N a b"
        have eq: "(b < a \<and> (a < i \<or> (a = i \<and> b < 0))) = (b < a \<and> a < i)"
          using ab by (auto simp: inside_def)
        have c: "cell DP a b = (if b < a \<and> a < i then cell DP0 b a else cell DP0 a b)"
          using I ab by blast
        show "cell DP a b = (if b < a \<and> (a < i \<or> (a = i \<and> b < 0))
                             then cell DP0 b a else cell DP0 a b)"
          unfolding eq by (rule c)
      qed
    next
      fix j DP1
      assume j: "0 \<le> j" "j < i" and I1: "?I' i j DP1"
      have ins: "inside N i j" and ins': "inside N j i" using i j by (simp_all add: inside_def)
      have "cell DP1 j i = (if i < j \<and> (j < i \<or> (j = i \<and> i < j)) then cell DP0 i j else cell DP0 j i)"
        using I1 ins' by blast
      then have rd: "cell DP1 j i = cell DP0 j i" using j by simp
      obtain v where v: "cell DP0 j i = Some v"
        using cell_square [OF sq ins'] by blast
      obtain DP2 where p: "put_cell DP1 i j v = Some DP2"
        and sq2: "square N DP2"
        and c2: "\<forall>a b. cell DP2 a b = (if a = i \<and> b = j then Some v else cell DP1 a b)"
        using put_cell_square [OF _ ins, of DP1] I1 by blast
      have "cell DP2 a b = (if b < a \<and> (a < i \<or> (a = i \<and> b < j + 1))
                             then cell DP0 b a else cell DP0 a b)"
        if ab: "inside N a b" for a b
      proof (cases "a = i \<and> b = j")
        case True
        then show ?thesis using c2 v j by simp
      next
        case False
        have c: "cell DP2 a b = cell DP1 a b" using c2 False by auto
        have c1: "cell DP1 a b = (if b < a \<and> (a < i \<or> (a = i \<and> b < j))
                             then cell DP0 b a else cell DP0 a b)"
          using I1 ab by blast
        have eq: "(b < a \<and> (a < i \<or> (a = i \<and> b < j + 1))) = (b < a \<and> (a < i \<or> (a = i \<and> b < j)))"
          using False by auto
        show ?thesis unfolding eq c by (rule c1)
      qed
      then show "\<exists>s'. ?body i j DP1 = Some s' \<and> ?I' i (j + 1) s'"
        using rd v p sq2 by simp
    qed
    then obtain DP' where l: "for_loop 0 i (?body i) DP = Some DP'"
      and I': "?I' i i DP'"
      using i by (auto simp: max_def)
    have "cell DP' a b = (if b < a \<and> a < i + 1 then cell DP0 b a else cell DP0 a b)"
      if ab: "inside N a b" for a b
    proof -
      have eq: "(b < a \<and> (a < i \<or> (a = i \<and> b < i))) = (b < a \<and> a < i + 1)"
        by auto
      have "cell DP' a b = (if b < a \<and> (a < i \<or> (a = i \<and> b < i))
                             then cell DP0 b a else cell DP0 a b)"
        using I' ab by blast
      then show ?thesis unfolding eq .
    qed
    then show ?thesis using l I' by blast
  qed
  have N0: "0 \<le> N" using sq by (auto simp: square_def)
  have "\<exists>DP'. for_loop 0 N (\<lambda>i DP. for_loop 0 i (?body i) DP) DP0 = Some DP' \<and> ?I (max 0 N) DP'"
  proof (rule for_loop_rule [where I = ?I])
    show "?I 0 DP0" using sq by (auto simp: inside_def)
  next
    fix i DP
    assume "0 \<le> i" "i < N" "?I i DP"
    then show "\<exists>s'. for_loop 0 i (?body i) DP = Some s' \<and> ?I (i + 1) s'"
      by (rule inner)
  qed
  then obtain DP where f: "nussinov_mirror N DP0 = Some DP" and I: "?I N DP"
    using N0 by (auto simp: nussinov_mirror_def max_def)
  have "cell DP a b = (if b < a then cell DP0 b a else cell DP0 a b)" if ab: "inside N a b" for a b
  proof -
    have eq: "(b < a \<and> a < N) = (b < a)" using ab by (auto simp: inside_def)
    have "cell DP a b = (if b < a \<and> a < N then cell DP0 b a else cell DP0 a b)"
      using I ab by blast
    then show ?thesis unfolding eq .
  qed
  then show ?thesis using f I by blast
qed

lemma inside_swap: "inside N a b \<Longrightarrow> inside N b a"
  by (simp add: inside_def)

lemma nussinov_table_cells:
  "\<exists>DP. nussinov_table sequence = Some DP \<and> square (int (length sequence)) DP \<and>
     (\<forall>a b. inside (int (length sequence)) a b \<longrightarrow>
        cell DP a b = Some (if a \<le> b then score sequence a b else score sequence b a))"
proof -
  let ?N = "int (length sequence)"
  obtain DP0 where i0: "initialize ?N = Some DP0" and sq0: "square ?N DP0"
    and z0: "\<forall>a b. inside ?N a b \<longrightarrow> cell DP0 a b = Some 0"
    using initialize_zero [of ?N] by auto
  obtain DP1 where f1: "nussinov_fill ?N sequence DP0 = Some DP1" and sq1: "square ?N DP1"
    and c1: "\<forall>a b. inside ?N a b \<longrightarrow>
               cell DP1 a b = Some (if a \<le> b then score sequence a b else 0)"
    using fill_scores [OF refl sq0 z0] by auto
  obtain DP2 where m2: "nussinov_mirror ?N DP1 = Some DP2" and sq2: "square ?N DP2"
    and c2: "\<forall>a b. inside ?N a b \<longrightarrow>
               cell DP2 a b = (if b < a then cell DP1 b a else cell DP1 a b)"
    using mirror_cells [OF sq1] by auto
  have "cell DP2 a b = Some (if a \<le> b then score sequence a b else score sequence b a)"
    if ab: "inside ?N a b" for a b
  proof (cases "b < a")
    case True
    have "cell DP2 a b = cell DP1 b a" using c2 ab True by simp
    also have "\<dots> = Some (score sequence b a)" using c1 inside_swap [OF ab] True by simp
    finally show ?thesis using True by simp
  next
    case False
    have "cell DP2 a b = cell DP1 a b" using c2 ab False by simp
    also have "\<dots> = Some (score sequence a b)" using c1 ab False by simp
    finally show ?thesis using False by simp
  qed
  moreover have "nussinov_table sequence = Some DP2"
    using i0 f1 m2 by (simp add: nussinov_table_def)
  ultimately show ?thesis using sq2 by blast
qed

lemma table_upper:
  assumes "nussinov_table sequence = Some DP" "0 \<le> a" "a \<le> b" "b < int (length sequence)"
  shows "cell DP a b = Some (score sequence a b)" and "Score DP a b = score sequence a b"
proof -
  have ins: "inside (int (length sequence)) a b" using assms(2-4) by (simp add: inside_def)
  have sq: "square (int (length sequence)) DP"
    and c: "cell DP a b = Some (if a \<le> b then score sequence a b else score sequence b a)"
    using nussinov_table_cells [of sequence] assms(1) ins by auto
  show "cell DP a b = Some (score sequence a b)" using c assms(3) by simp
  then show "Score DP a b = score sequence a b"
    using cell_square [OF sq ins] by (simp add: Score_def)
qed

lemma table_recurrence:
  assumes t: "nussinov_table sequence = Some DP"
    and ij: "0 \<le> i" "i \<le> j" "j < int (length sequence)"
  shows "Score DP i j = recurrence sequence (Score DP) i j"
proof (cases "j - i \<le> 4")
  case True
  then have "score sequence i j = 0" by (intro score_base) simp
  then show ?thesis using table_upper(2) [OF t ij] True by (simp add: recurrence_def)
next
  case False
  let ?ok = "\<lambda>t. pair_check (sequence ! nat t) (sequence ! nat j)"
  have u: "Score DP i (j - 1) = score sequence i (j - 1)"
    using False ij by (intro table_upper(2) [OF t]) simp_all
  have m: "map (\<lambda>t. 1 + (if t = i then 0 else Score DP i (t - 1)) + Score DP (t + 1) (j - 1))
             (filter ?ok [i..j - 5])
         = map (\<lambda>t. 1 + score sequence i (t - 1) + score sequence (t + 1) (j - 1))
             (filter ?ok [i..j - 5])"
  proof (rule map_cong [OF refl])
    fix t assume "t \<in> set (filter ?ok [i..j - 5])"
    then have tr: "i \<le> t" "t \<le> j - 5" by simp_all
    have r: "Score DP (t + 1) (j - 1) = score sequence (t + 1) (j - 1)"
      using tr ij by (intro table_upper(2) [OF t]) simp_all
    have l: "(if t = i then 0 else Score DP i (t - 1)) = score sequence i (t - 1)"
    proof (cases "t = i")
      case True
      then show ?thesis by (simp add: score_base)
    next
      case False
      have "Score DP i (t - 1) = score sequence i (t - 1)"
        using tr ij False by (intro table_upper(2) [OF t]) simp_all
      then show ?thesis using False by simp
    qed
    show "1 + (if t = i then 0 else Score DP i (t - 1)) + Score DP (t + 1) (j - 1)
          = 1 + score sequence i (t - 1) + score sequence (t + 1) (j - 1)"
      using l r by simp
  qed
  have c: "set (map (\<lambda>t. 1 + score sequence i (t - 1) + score sequence (t + 1) (j - 1))
             (filter ?ok [i..j - 5])) = candidates sequence i j"
    by (auto simp: candidates_def)
  have "score sequence i j = Max (insert (score sequence i (j - 1)) (candidates sequence i j))"
    using False ij by (intro score_rec) simp_all
  then show ?thesis
    using table_upper(2) [OF t ij] False by (simp add: recurrence_def u m candidates_def)
qed

subsection \<open>traceback\<close>

lemma cell_Score: "square N DP \<Longrightarrow> inside N i j \<Longrightarrow> cell DP i j = Some (Score DP i j)"
  by (simp add: cell_square Score_def)

lemma traceback_empty: "j \<le> i \<Longrightarrow> traceback i j st DP sequence = Some st"
  by (simp add: traceback.simps [of i j])

lemma traceback_unfold:
  assumes "square N DP" "0 \<le> i" "i < j" "j < N"
  shows "traceback i j st DP sequence =
           (if Score DP i j = Score DP i (j - 1) then traceback i (j - 1) st DP sequence
            else traceback_loop i j i st DP sequence)"
proof -
  have "inside N i j" "inside N i (j - 1)" using assms(2-4) by (simp_all add: inside_def)
  then have "cell DP i j = Some (Score DP i j)" "cell DP i (j - 1) = Some (Score DP i (j - 1))"
    using assms(1) by (simp_all add: cell_Score)
  then show ?thesis using assms(3) by (simp add: traceback.simps [of i j])
qed

lemma traceback_loop_end: "j - 4 \<le> k \<Longrightarrow> traceback_loop i j k st DP sequence = Some st"
  by (simp add: traceback_loop.simps [of i j k])

lemma traceback_loop_unfold:
  assumes sq: "square N DP" and N: "N = int (length sequence)"
    and r: "0 \<le> i" "i \<le> k" "k < j - 4" "j < N"
  shows "traceback_loop i j k st DP sequence =
           (if split_test DP sequence i j k then emit i j k st DP sequence
            else traceback_loop i j (k + 1) st DP sequence)"
proof -
  have ck: "char_at sequence k = Some (sequence ! nat k)"
    and cj: "char_at sequence j = Some (sequence ! nat j)"
    using r N by (simp_all add: char_at_in)
  have x: "cell DP i j = Some (Score DP i j)"
    using r by (intro cell_Score [OF sq]) (simp add: inside_def)
  have rr: "cell DP (k + 1) (j - 1) = Some (Score DP (k + 1) (j - 1))"
    using r by (intro cell_Score [OF sq]) (simp add: inside_def)
  show ?thesis
  proof (cases "k - 1 < 0")
    case True
    then have "k - 1 \<le> i" using r by simp
    then have e: "emit i j k st DP sequence = traceback (k + 1) (j - 1) (st @ [(k, j)]) DP sequence"
      by (simp add: emit_def traceback_empty)
    show ?thesis
      using r True
      by (simp add: traceback_loop.simps [of i j k] ck cj x rr e split_test_def)
  next
    case False
    have l: "cell DP i (k - 1) = Some (Score DP i (k - 1))"
      using r False by (intro cell_Score [OF sq]) (simp add: inside_def)
    show ?thesis
      using r False
      by (simp add: traceback_loop.simps [of i j k] ck cj x rr l emit_def split_test_def)
  qed
qed

lemma traceback_loop_miss:
  assumes sq: "square N DP" and N: "N = int (length sequence)"
    and r: "0 \<le> i" "i \<le> k" "j < N"
    and miss: "\<forall>t. k \<le> t \<and> t < j - 4 \<longrightarrow> \<not> split_test DP sequence i j t"
  shows "traceback_loop i j k st DP sequence = Some st"
  using r(2) miss
proof (induction "nat (j - 4 - k)" arbitrary: k)
  case 0
  then show ?case by (simp add: traceback_loop_end)
next
  case (Suc n)
  then have k: "k < j - 4" by simp
  have "traceback_loop i j (k + 1) st DP sequence = Some st"
    using Suc.hyps(2) Suc.prems by (intro Suc.hyps(1)) auto
  moreover have "\<not> split_test DP sequence i j k" using Suc.prems(2) k by simp
  ultimately show ?case
    using traceback_loop_unfold [OF sq N r(1) Suc.prems(1) k r(3)] by simp
qed

lemma traceback_loop_hit:
  assumes sq: "square N DP" and N: "N = int (length sequence)"
    and r: "0 \<le> i" "i \<le> k" "j < N"
    and t0: "k \<le> t0" "t0 < j - 4" "split_test DP sequence i j t0"
    and miss: "\<forall>t. k \<le> t \<and> t < t0 \<longrightarrow> \<not> split_test DP sequence i j t"
  shows "traceback_loop i j k st DP sequence = emit i j t0 st DP sequence"
  using r(2) t0(1) miss
proof (induction "nat (t0 - k)" arbitrary: k)
  case 0
  then have "k = t0" by simp
  then show ?case
    using traceback_loop_unfold [OF sq N r(1) _ _ r(3), of t0] r t0 "0.prems" by simp
next
  case (Suc n)
  then have k: "k < t0" by simp
  have "traceback_loop i j (k + 1) st DP sequence = emit i j t0 st DP sequence"
    using Suc.hyps(2) Suc.prems k by (intro Suc.hyps(1)) auto
  moreover have "\<not> split_test DP sequence i j k" using Suc.prems(3) k by simp
  moreover have "k < j - 4" using k t0(2) by simp
  ultimately show ?case
    using traceback_loop_unfold [OF sq N r(1) Suc.prems(1) _ r(3)] by simp
qed

lemma first_split:
  fixes k t :: int
  assumes "k \<le> t" "P t"
  shows "\<exists>t0. k \<le> t0 \<and> t0 \<le> t \<and> P t0 \<and> (\<forall>u. k \<le> u \<and> u < t0 \<longrightarrow> \<not> P u)"
  using assms
proof (induction "nat (t - k)" arbitrary: t rule: less_induct)
  case less
  show ?case
  proof (cases "\<exists>u. k \<le> u \<and> u < t \<and> P u")
    case True
    then obtain u where u: "k \<le> u" "u < t" "P u" by blast
    then obtain t0 where "k \<le> t0" "t0 \<le> u" "P t0" "\<forall>v. k \<le> v \<and> v < t0 \<longrightarrow> \<not> P v"
      using less.hyps [of u] by auto
    then show ?thesis using u(2) by (intro exI [of _ t0]) auto
  next
    case False
    then show ?thesis using less.prems by (intro exI [of _ t]) auto
  qed
qed

lemma indices_simps [simp]:
  "indices [] = []"
  "indices ((a, b) # ps) = a # b # indices ps"
  "indices (ps @ qs) = indices ps @ indices qs"
  by (simp_all add: indices_def)

lemma set_indices: "set (indices ps) = fst ` set ps \<union> snd ` set ps"
proof (induction ps)
  case Nil
  show ?case by simp
next
  case (Cons p ps)
  obtain a b where p: "p = (a, b)" by (cases p)
  show ?case unfolding p using Cons.IH by auto
qed

lemma within_Nil: "within sequence i j []"
  by (simp add: within_def noncrossing_def)

lemma within_indices:
  "within sequence i j ps \<Longrightarrow> x \<in> set (indices ps) \<Longrightarrow> i \<le> x \<and> x \<le> j"
  by (fastforce simp: within_def set_indices)

lemma within_join:
  assumes w1: "within sequence i (k - 1) ps1" and w2: "within sequence (k + 1) (j - 1) ps2"
    and k: "i \<le> k" "k + 5 \<le> j" and pc: "pair_check (sequence ! nat k) (sequence ! nat j)"
  shows "within sequence i j ((k, j) # ps1 @ ps2)"
proof -
  have r1: "i \<le> x \<and> x \<le> k - 1" if "x \<in> set (indices ps1)" for x
    using within_indices [OF w1 that] .
  have r2: "k + 1 \<le> x \<and> x \<le> j - 1" if "x \<in> set (indices ps2)" for x
    using within_indices [OF w2 that] .
  have p1: "i \<le> a \<and> a + 5 \<le> b \<and> b \<le> k - 1 \<and> pair_check (sequence ! nat a) (sequence ! nat b)"
    if "(a, b) \<in> set ps1" for a b
    using w1 that by (auto simp: within_def)
  have p2: "k + 1 \<le> a \<and> a + 5 \<le> b \<and> b \<le> j - 1 \<and> pair_check (sequence ! nat a) (sequence ! nat b)"
    if "(a, b) \<in> set ps2" for a b
    using w2 that by (auto simp: within_def)
  have n1: "b < c \<or> d < b" if "(a, b) \<in> set ps1" "(c, d) \<in> set ps1" "a < c" for a b c d
    using w1 that by (auto simp: within_def noncrossing_def)
  have n2: "b < c \<or> d < b" if "(a, b) \<in> set ps2" "(c, d) \<in> set ps2" "a < c" for a b c d
    using w2 that by (auto simp: within_def noncrossing_def)
  have d: "distinct (indices ((k, j) # ps1 @ ps2))"
  proof -
    have "k \<notin> set (indices ps1)" "k \<notin> set (indices ps2)"
      "j \<notin> set (indices ps1)" "j \<notin> set (indices ps2)"
      using r1 r2 k by force+
    moreover have "set (indices ps1) \<inter> set (indices ps2) = {}"
      using r1 r2 by force
    moreover have "distinct (indices ps1)" "distinct (indices ps2)"
      using w1 w2 by (simp_all add: within_def)
    ultimately show ?thesis using k by simp
  qed
  have b: "i \<le> a \<and> a + 5 \<le> b \<and> b \<le> j \<and> pair_check (sequence ! nat a) (sequence ! nat b)"
    if "(a, b) \<in> set ((k, j) # ps1 @ ps2)" for a b
    using that p1 [of a b] p2 [of a b] k pc by auto
  have n: "b < c \<or> d < b"
    if ab: "(a, b) \<in> set ((k, j) # ps1 @ ps2)" and cd: "(c, d) \<in> set ((k, j) # ps1 @ ps2)"
      and ac: "a < c" for a b c d
  proof -
    consider "(a, b) = (k, j)" | "(a, b) \<in> set ps1" | "(a, b) \<in> set ps2" using ab by auto
    then show ?thesis
    proof cases
      case 1
      then show ?thesis using cd ac p1 [of c d] p2 [of c d] by auto
    next
      case 2
      then show ?thesis using cd ac p1 [of a b] p1 [of c d] p2 [of c d] n1 [of a b c d] by auto
    next
      case 3
      then show ?thesis using cd ac p2 [of a b] p1 [of c d] p2 [of c d] n2 [of a b c d] by auto
    qed
  qed
  show ?thesis
    unfolding within_def noncrossing_def using d b n by blast
qed

lemma within_widen:
  "within sequence i (j - 1) ps \<Longrightarrow> within sequence i j ps"
  by (fastforce simp: within_def)

lemma table_left:
  assumes t: "nussinov_table sequence = Some DP"
    and r: "0 \<le> i" "i \<le> k" "k < int (length sequence)"
  shows "(if k - 1 < 0 then 0 else Score DP i (k - 1)) = score sequence i (k - 1)"
proof (cases "k = i")
  case True
  show ?thesis
  proof (cases "k - 1 < 0")
    case True
    then show ?thesis using \<open>k = i\<close> by (simp add: score_base)
  next
    case False
    have ins: "inside (int (length sequence)) i (i - 1)"
      using r False \<open>k = i\<close> by (simp add: inside_def)
    have sq: "square (int (length sequence)) DP"
      and c: "cell DP i (i - 1)
            = Some (if i \<le> i - 1 then score sequence i (i - 1) else score sequence (i - 1) i)"
      using nussinov_table_cells [of sequence] t ins by auto
    have "Score DP i (i - 1) = score sequence (i - 1) i"
      using c cell_Score [OF sq ins] by simp
    then show ?thesis using False \<open>k = i\<close> by (simp add: score_base)
  qed
next
  case False
  then have "Score DP i (k - 1) = score sequence i (k - 1)"
    using r by (intro table_upper(2) [OF t]) simp_all
  then show ?thesis using False r by simp
qed

lemma table_split_test:
  assumes t: "nussinov_table sequence = Some DP"
    and r: "0 \<le> i" "i \<le> k" "k < j - 4" "j < int (length sequence)"
  shows "split_test DP sequence i j k \<longleftrightarrow>
           pair_check (sequence ! nat k) (sequence ! nat j) \<and>
           score sequence i j = score sequence i (k - 1) + score sequence (k + 1) (j - 1) + 1"
proof -
  have a: "Score DP i j = score sequence i j"
    using r by (intro table_upper(2) [OF t]) simp_all
  have b: "Score DP (k + 1) (j - 1) = score sequence (k + 1) (j - 1)"
    using r by (intro table_upper(2) [OF t]) simp_all
  have c: "(if k - 1 < 0 then 0 else Score DP i (k - 1)) = score sequence i (k - 1)"
    using r by (intro table_left [OF t]) simp_all
  show ?thesis unfolding split_test_def a b c ..
qed

lemma table_some_split:
  assumes t: "nussinov_table sequence = Some DP"
    and r: "0 \<le> i" "i < j" "j < int (length sequence)"
    and ne: "score sequence i j \<noteq> score sequence i (j - 1)"
  shows "\<exists>k. i \<le> k \<and> k < j - 4 \<and> split_test DP sequence i j k"
proof -
  have w: "i < j - 4"
  proof (rule ccontr)
    assume "\<not> i < j - 4"
    then have "score sequence i j = 0" "score sequence i (j - 1) = 0"
      by (simp_all add: score_base)
    then show False using ne by simp
  qed
  have m: "score sequence i j = Max (insert (score sequence i (j - 1)) (candidates sequence i j))"
    using r w by (intro score_rec) simp_all
  have "Max (insert (score sequence i (j - 1)) (candidates sequence i j))
          \<in> insert (score sequence i (j - 1)) (candidates sequence i j)"
    by (intro Max_in) (simp_all add: finite_candidates)
  then have "score sequence i j \<in> candidates sequence i j" using m ne by auto
  then obtain k where k: "i \<le> k" "k \<le> j - 5"
    "pair_check (sequence ! nat k) (sequence ! nat j)"
    "score sequence i j = 1 + score sequence i (k - 1) + score sequence (k + 1) (j - 1)"
    by (auto simp: candidates_def)
  have "split_test DP sequence i j k"
    using k r by (subst table_split_test [OF t]) simp_all
  then show ?thesis using k by (intro exI [of _ k]) simp
qed

lemma traceback_result:
  assumes sq: "square N DP" and N: "N = int (length sequence)"
  shows "0 \<le> i \<Longrightarrow> j < N \<Longrightarrow>
         \<exists>ps. traceback i j st DP sequence = Some (st @ ps) \<and> within sequence i j ps \<and>
              (nussinov_table sequence = Some DP \<longrightarrow> int (length ps) = score sequence i j)"
proof (induction "nat (j - i)" arbitrary: i j st rule: less_induct)
  case less
  note i0 = less.prems(1) and jN = less.prems(2)
  show ?case
  proof (cases "j \<le> i")
    case True
    then have "traceback i j st DP sequence = Some (st @ [])" by (simp add: traceback_empty)
    moreover have "int (length ([] :: structure)) = score sequence i j"
      using True by (simp add: score_base)
    ultimately show ?thesis using within_Nil by blast
  next
    case False
    then have ij: "i < j" by simp
    note unf = traceback_unfold [OF sq i0 ij jN, of st sequence]
    show ?thesis
    proof (cases "Score DP i j = Score DP i (j - 1)")
      case True
      obtain ps where ps: "traceback i (j - 1) st DP sequence = Some (st @ ps)"
        "within sequence i (j - 1) ps"
        "nussinov_table sequence = Some DP \<longrightarrow> int (length ps) = score sequence i (j - 1)"
        using less.hyps [of "j - 1" i st] i0 jN ij by auto
      have "int (length ps) = score sequence i j" if t: "nussinov_table sequence = Some DP"
      proof -
        have "Score DP i j = score sequence i j"
          using i0 ij jN N by (intro table_upper(2) [OF t]) simp_all
        moreover have "Score DP i (j - 1) = score sequence i (j - 1)"
          using i0 ij jN N by (intro table_upper(2) [OF t]) simp_all
        ultimately show ?thesis using ps(3) t True by simp
      qed
      then show ?thesis using unf True ps(1) within_widen [OF ps(2)] by auto
    next
      case ne: False
      show ?thesis
      proof (cases "\<exists>k. i \<le> k \<and> k < j - 4 \<and> split_test DP sequence i j k")
        case True
        then obtain k where k: "i \<le> k" "k < j - 4 \<and> split_test DP sequence i j k" by blast
        obtain t0 where t0: "i \<le> t0" "t0 \<le> k" "t0 < j - 4 \<and> split_test DP sequence i j t0"
          and first: "\<forall>u. i \<le> u \<and> u < t0 \<longrightarrow> \<not> (u < j - 4 \<and> split_test DP sequence i j u)"
          using first_split [of i k "\<lambda>u. u < j - 4 \<and> split_test DP sequence i j u", OF k]
          by blast
        have miss: "\<forall>u. i \<le> u \<and> u < t0 \<longrightarrow> \<not> split_test DP sequence i j u"
          using first t0 by auto
        have lp: "traceback_loop i j i st DP sequence = emit i j t0 st DP sequence"
          using t0 by (intro traceback_loop_hit [OF sq N i0 _ jN _ _ _ miss]) simp_all
        obtain ps1 where ps1:
          "traceback i (t0 - 1) (st @ [(t0, j)]) DP sequence = Some ((st @ [(t0, j)]) @ ps1)"
          "within sequence i (t0 - 1) ps1"
          "nussinov_table sequence = Some DP \<longrightarrow> int (length ps1) = score sequence i (t0 - 1)"
          using less.hyps [of "t0 - 1" i "st @ [(t0, j)]"] i0 jN ij t0 by auto
        obtain ps2 where ps2:
          "traceback (t0 + 1) (j - 1) ((st @ [(t0, j)]) @ ps1) DP sequence
             = Some (((st @ [(t0, j)]) @ ps1) @ ps2)"
          "within sequence (t0 + 1) (j - 1) ps2"
          "nussinov_table sequence = Some DP \<longrightarrow>
             int (length ps2) = score sequence (t0 + 1) (j - 1)"
          using less.hyps [of "j - 1" "t0 + 1" "(st @ [(t0, j)]) @ ps1"] i0 jN ij t0 by auto
        have res: "traceback i j st DP sequence = Some (st @ ((t0, j) # ps1 @ ps2))"
          using unf ne lp ps1(1) ps2(1) by (simp add: emit_def)
        have w: "within sequence i j ((t0, j) # ps1 @ ps2)"
          using t0 by (intro within_join [OF ps1(2) ps2(2)]) (simp_all add: split_test_def)
        have "int (length ((t0, j) # ps1 @ ps2)) = score sequence i j"
          if t: "nussinov_table sequence = Some DP"
        proof -
          have "score sequence i j
                  = score sequence i (t0 - 1) + score sequence (t0 + 1) (j - 1) + 1"
            using t0 jN N i0 table_split_test [OF t i0 t0(1), of j] by simp
          then show ?thesis using ps1(3) ps2(3) t by simp
        qed
        then show ?thesis using res w by blast
      next
        case False
        then have miss: "\<forall>t. i \<le> t \<and> t < j - 4 \<longrightarrow> \<not> split_test DP sequence i j t" by blast
        have lp: "traceback_loop i j i st DP sequence = Some st"
          by (intro traceback_loop_miss [OF sq N i0 _ jN miss]) simp
        have "int (length ([] :: structure)) = score sequence i j"
          if t: "nussinov_table sequence = Some DP"
        proof -
          have "Score DP i j = score sequence i j"
            using i0 ij jN N by (intro table_upper(2) [OF t]) simp_all
          moreover have "Score DP i (j - 1) = score sequence i (j - 1)"
            using i0 ij jN N by (intro table_upper(2) [OF t]) simp_all
          ultimately have "score sequence i j \<noteq> score sequence i (j - 1)" using ne by simp
          then have "\<exists>k. i \<le> k \<and> k < j - 4 \<and> split_test DP sequence i j k"
            using i0 ij jN N by (intro table_some_split [OF t]) simp_all
          then show ?thesis using False by blast
        qed
        moreover have "traceback i j st DP sequence = Some (st @ [])"
          using unf ne lp by simp
        ultimately show ?thesis using within_Nil by blast
      qed
    qed
  qed
qed

subsection \<open>nussinov\<close>

lemma nussinov_result:
  "\<exists>DP ps. nussinov_table sequence = Some DP \<and> nussinov sequence = Some ps \<and>
     square (int (length sequence)) DP \<and>
     within sequence 0 (int (length sequence) - 1) ps \<and>
     int (length ps) = score sequence 0 (int (length sequence) - 1)"
proof -
  let ?N = "int (length sequence)"
  obtain DP where t: "nussinov_table sequence = Some DP" and sq: "square ?N DP"
    using nussinov_table_cells [of sequence] by blast
  obtain ps where ps: "traceback 0 (?N - 1) [] DP sequence = Some ([] @ ps)"
    "within sequence 0 (?N - 1) ps"
    "nussinov_table sequence = Some DP \<longrightarrow> int (length ps) = score sequence 0 (?N - 1)"
    using traceback_result [OF sq refl, of 0 "?N - 1" "[]"] by auto
  have "nussinov sequence = Some ps" using t ps(1) by (simp add: nussinov_def)
  then show ?thesis using t sq ps by blast
qed

lemma pair_check_watson_crick: "pair_check a b \<longleftrightarrow> (a, b) \<in> watson_crick"
  by (auto simp: pair_check_def watson_crick_def)

lemma within_pairing_invariant:
  assumes "within sequence 0 (int (length sequence) - 1) ps"
  shows "pairing_invariant sequence ps"
  using assms unfolding within_def pairing_invariant_def pair_check_watson_crick
  by fastforce

subsection \<open>write_structure\<close>

lemma count_list_update_other:
  "k < length xs \<Longrightarrow> xs ! k \<noteq> z \<Longrightarrow>
   count_list (xs[k := y]) z = count_list xs z + (if y = z then 1 else 0)"
proof (induction xs arbitrary: k)
  case Nil
  then show ?case by simp
next
  case (Cons x xs)
  then show ?case by (cases k) auto
qed

lemma count_take_update:
  assumes "k < length xs" "xs ! k \<noteq> z"
  shows "count_list (take n (xs[k := y])) z
           = count_list (take n xs) z + (if y = z \<and> k < n then 1 else 0)"
proof (cases "k < n")
  case True
  have "take n (xs[k := y]) = (take n xs)[k := y]" by (rule take_update_swap)
  moreover have "k < length (take n xs)" "take n xs ! k \<noteq> z" using assms True by simp_all
  ultimately show ?thesis using True by (simp add: count_list_update_other)
next
  case False
  then have "take n (xs[k := y]) = take n xs" by (intro take_update_cancel) simp
  then show ?thesis using False by simp
qed

lemma write_pairs_result:
  assumes "distinct (indices ps)"
    and "\<forall>(a, b) \<in> set ps. 0 \<le> a \<and> a < b \<and> b < int (length d)"
    and "\<forall>x \<in> set (indices ps). d ! nat x = CHR ''.''"
  shows "\<exists>d'. write_pairs ps d = Some d' \<and> length d' = length d \<and>
           (\<forall>(a, b) \<in> set ps. d' ! nat a = CHR ''('' \<and> d' ! nat b = CHR '')'') \<and>
           (\<forall>p < length d. int p \<notin> set (indices ps) \<longrightarrow> d' ! p = d ! p) \<and>
           (\<forall>n. count_list (take n d') (CHR ''('')
                  = count_list (take n d) (CHR ''('') + length (filter (\<lambda>s. fst s < int n) ps)) \<and>
           (\<forall>n. count_list (take n d') (CHR '')'')
                  = count_list (take n d) (CHR '')'') + length (filter (\<lambda>s. snd s < int n) ps))"
  using assms
proof (induction ps arbitrary: d)
  case Nil
  then show ?case by simp
next
  case (Cons s rest)
  obtain a b where s: "s = (a, b)" by (cases s)
  have ab: "0 \<le> a" "a < b" "b < int (length d)" using Cons.prems(2) s by auto
  have da: "d ! nat a = CHR ''.''" and db: "d ! nat b = CHR ''.''"
    using Cons.prems(3) s by auto
  have fresh: "a \<notin> set (indices rest)" "b \<notin> set (indices rest)"
    and drest: "distinct (indices rest)"
    using Cons.prems(1) s by auto
  let ?d1 = "d[nat a := CHR ''('']"
  let ?d2 = "?d1[nat b := CHR '')'']"
  have p1: "put_char d (min (fst s) (snd s)) (CHR ''('') = Some ?d1"
    using ab s by (simp add: put_char_def min_def)
  have p2: "put_char ?d1 (max (fst s) (snd s)) (CHR '')'') = Some ?d2"
    using ab s by (simp add: put_char_def max_def)
  have wp: "write_pairs (s # rest) d = write_pairs rest ?d2"
    using p1 p2 by simp
  have nn: "0 \<le> x" if "x \<in> set (indices rest)" for x
    using that Cons.prems(2) by (fastforce simp: set_indices)
  have keep: "?d2 ! nat x = d ! nat x" if "x \<in> set (indices rest)" for x
  proof -
    have "x \<noteq> a" "x \<noteq> b" using that fresh by auto
    then have "nat x \<noteq> nat a" "nat x \<noteq> nat b" using nn [OF that] ab by auto
    then show ?thesis by simp
  qed
  have "\<exists>d'. write_pairs rest ?d2 = Some d' \<and> length d' = length ?d2 \<and>
           (\<forall>(a, b) \<in> set rest. d' ! nat a = CHR ''('' \<and> d' ! nat b = CHR '')'') \<and>
           (\<forall>p < length ?d2. int p \<notin> set (indices rest) \<longrightarrow> d' ! p = ?d2 ! p) \<and>
           (\<forall>n. count_list (take n d') (CHR ''('')
                  = count_list (take n ?d2) (CHR ''('') + length (filter (\<lambda>s. fst s < int n) rest)) \<and>
           (\<forall>n. count_list (take n d') (CHR '')'')
                  = count_list (take n ?d2) (CHR '')'') + length (filter (\<lambda>s. snd s < int n) rest))"
  proof (rule Cons.IH)
    show "distinct (indices rest)" by (rule drest)
    show "\<forall>(a, b) \<in> set rest. 0 \<le> a \<and> a < b \<and> b < int (length ?d2)"
      using Cons.prems(2) by auto
    show "\<forall>x \<in> set (indices rest). ?d2 ! nat x = CHR ''.''"
      using keep Cons.prems(3) s by auto
  qed
  then obtain d' where d': "write_pairs rest ?d2 = Some d'" "length d' = length d"
    and prs: "\<forall>(a, b) \<in> set rest. d' ! nat a = CHR ''('' \<and> d' ! nat b = CHR '')''"
    and oth: "\<forall>p < length d. int p \<notin> set (indices rest) \<longrightarrow> d' ! p = ?d2 ! p"
    and co: "\<forall>n. count_list (take n d') (CHR ''('')
                  = count_list (take n ?d2) (CHR ''('') + length (filter (\<lambda>s. fst s < int n) rest)"
    and cc: "\<forall>n. count_list (take n d') (CHR '')'')
                  = count_list (take n ?d2) (CHR '')'') + length (filter (\<lambda>s. snd s < int n) rest)"
    by auto
  have na: "nat a < length d" "nat b < length d" "nat a \<noteq> nat b" using ab by auto
  have at_a: "d' ! nat a = CHR ''(''"
  proof -
    have "d' ! nat a = ?d2 ! nat a" using oth na(1) fresh(1) ab by simp
    then show ?thesis using na by simp
  qed
  have at_b: "d' ! nat b = CHR '')''"
  proof -
    have "d' ! nat b = ?d2 ! nat b" using oth na(2) fresh(2) ab by simp
    then show ?thesis using na by simp
  qed
  have pairs: "\<forall>(a, b) \<in> set (s # rest). d' ! nat a = CHR ''('' \<and> d' ! nat b = CHR '')''"
    using prs at_a at_b s by simp
  have others: "\<forall>p < length d. int p \<notin> set (indices (s # rest)) \<longrightarrow> d' ! p = d ! p"
  proof (intro allI impI)
    fix p assume p: "p < length d" "int p \<notin> set (indices (s # rest))"
    then have "int p \<notin> set (indices rest)" "p \<noteq> nat a" "p \<noteq> nat b" using s ab by auto
    then show "d' ! p = d ! p" using oth p(1) by simp
  qed
  have o1: "count_list (take n ?d1) (CHR ''('')
              = count_list (take n d) (CHR ''('') + (if nat a < n then 1 else 0)" for n
    using count_take_update [of "nat a" d "CHR ''(''" n "CHR ''(''"] na da by simp
  have o2: "count_list (take n ?d2) (CHR ''('') = count_list (take n ?d1) (CHR ''('')" for n
    using count_take_update [of "nat b" ?d1 "CHR ''(''" n "CHR '')''"] na db by simp
  have c1: "count_list (take n ?d1) (CHR '')'') = count_list (take n d) (CHR '')'')" for n
    using count_take_update [of "nat a" d "CHR '')''" n "CHR ''(''"] na da by simp
  have c2: "count_list (take n ?d2) (CHR '')'')
              = count_list (take n ?d1) (CHR '')'') + (if nat b < n then 1 else 0)" for n
    using count_take_update [of "nat b" ?d1 "CHR '')''" n "CHR '')''"] na db by simp
  have lt: "(a < int n) = (nat a < n)" "(b < int n) = (nat b < n)" for n
    using ab by auto
  have opens: "\<forall>n. count_list (take n d') (CHR ''('')
      = count_list (take n d) (CHR ''('') + length (filter (\<lambda>s. fst s < int n) (s # rest))"
    using co o1 o2 lt s by simp
  have closes: "\<forall>n. count_list (take n d') (CHR '')'')
      = count_list (take n d) (CHR '')'') + length (filter (\<lambda>s. snd s < int n) (s # rest))"
    using cc c1 c2 lt s by simp
  show ?case
    using wp d' pairs others opens closes by simp
qed

lemma count_list_replicate_other: "c \<noteq> z \<Longrightarrow> count_list (replicate n c) z = 0"
  by (induction n) simp_all

lemma length_filter_mono:
  "(\<And>x. x \<in> set xs \<Longrightarrow> P x \<Longrightarrow> Q x) \<Longrightarrow> length (filter P xs) \<le> length (filter Q xs)"
proof (induction xs)
  case Nil
  show ?case by simp
next
  case (Cons x xs)
  then have "length (filter P xs) \<le> length (filter Q xs)" by simp
  then show ?case using Cons.prems [of x] by auto
qed

lemma main_output_result:
  "\<exists>ps d. main_output sequence = Some (ps, d) \<and>
     length d = length sequence \<and>
     (\<forall>(i, j) \<in> set ps. d ! nat (min i j) = CHR ''('' \<and> d ! nat (max i j) = CHR '')'') \<and>
     (\<forall>p < length d. int p \<notin> set (indices ps) \<longrightarrow> d ! p = CHR ''.'') \<and>
     count_list d (CHR ''('') = length ps \<and>
     count_list d (CHR '')'') = length ps \<and>
     (\<forall>n \<le> length d. count_list (take n d) (CHR '')'') \<le> count_list (take n d) (CHR ''(''))"
proof -
  let ?N = "length sequence"
  let ?d0 = "replicate ?N (CHR ''.'')"
  obtain ps where ps: "nussinov sequence = Some ps" and w: "within sequence 0 (int ?N - 1) ps"
    using nussinov_result [of sequence] by blast
  have rng: "0 \<le> a \<and> a < b \<and> b < int ?N" if "(a, b) \<in> set ps" for a b
    using w that by (fastforce simp: within_def)
  have dist: "distinct (indices ps)" using w by (simp add: within_def)
  have inr: "0 \<le> x \<and> x < int ?N" if "x \<in> set (indices ps)" for x
    using within_indices [OF w that] by simp
  have "\<exists>d'. write_pairs ps ?d0 = Some d' \<and> length d' = length ?d0 \<and>
           (\<forall>(a, b) \<in> set ps. d' ! nat a = CHR ''('' \<and> d' ! nat b = CHR '')'') \<and>
           (\<forall>p < length ?d0. int p \<notin> set (indices ps) \<longrightarrow> d' ! p = ?d0 ! p) \<and>
           (\<forall>n. count_list (take n d') (CHR ''('')
                  = count_list (take n ?d0) (CHR ''('') + length (filter (\<lambda>s. fst s < int n) ps)) \<and>
           (\<forall>n. count_list (take n d') (CHR '')'')
                  = count_list (take n ?d0) (CHR '')'') + length (filter (\<lambda>s. snd s < int n) ps))"
  proof (rule write_pairs_result [OF dist])
    show "\<forall>(a, b) \<in> set ps. 0 \<le> a \<and> a < b \<and> b < int (length ?d0)"
      using rng by auto
    show "\<forall>x \<in> set (indices ps). ?d0 ! nat x = CHR ''.''"
    proof
      fix x assume "x \<in> set (indices ps)"
      then have "nat x < ?N" using inr [of x] by (simp add: nat_less_iff)
      then show "?d0 ! nat x = CHR ''.''" by simp
    qed
  qed
  then obtain d where d: "write_pairs ps ?d0 = Some d" "length d = ?N"
    and prs: "\<forall>(a, b) \<in> set ps. d ! nat a = CHR ''('' \<and> d ! nat b = CHR '')''"
    and oth: "\<forall>p < ?N. int p \<notin> set (indices ps) \<longrightarrow> d ! p = ?d0 ! p"
    and co: "\<forall>n. count_list (take n d) (CHR ''('')
                  = count_list (take n ?d0) (CHR ''('') + length (filter (\<lambda>s. fst s < int n) ps)"
    and cc: "\<forall>n. count_list (take n d) (CHR '')'')
                  = count_list (take n ?d0) (CHR '')'') + length (filter (\<lambda>s. snd s < int n) ps)"
    by auto
  have z: "count_list (take n ?d0) (CHR ''('') = 0" "count_list (take n ?d0) (CHR '')'') = 0" for n
    by (simp_all add: take_replicate count_list_replicate_other)
  have opens: "count_list (take n d) (CHR ''('') = length (filter (\<lambda>s. fst s < int n) ps)" for n
    using co z by simp
  have closes: "count_list (take n d) (CHR '')'') = length (filter (\<lambda>s. snd s < int n) ps)" for n
    using cc z by simp
  have m: "main_output sequence = Some (ps, d)"
    using ps d(1) by (simp add: main_output_def write_structure_def)
  have a: "\<forall>(i, j) \<in> set ps. d ! nat (min i j) = CHR ''('' \<and> d ! nat (max i j) = CHR '')''"
  proof (intro ballI, clarify)
    fix i j assume ij: "(i, j) \<in> set ps"
    then have "min i j = i" "max i j = j" using rng [OF ij] by simp_all
    then show "d ! nat (min i j) = CHR ''('' \<and> d ! nat (max i j) = CHR '')''"
      using prs ij by auto
  qed
  have b: "\<forall>p < length d. int p \<notin> set (indices ps) \<longrightarrow> d ! p = CHR ''.''"
    using oth d(2) by simp
  have all_fst: "filter (\<lambda>s. fst s < int ?N) ps = ps"
  proof (rule filter_True, clarify)
    fix a b assume "(a, b) \<in> set ps"
    then show "fst (a, b) < int ?N" using rng [of a b] by simp
  qed
  have all_snd: "filter (\<lambda>s. snd s < int ?N) ps = ps"
  proof (rule filter_True, clarify)
    fix a b assume "(a, b) \<in> set ps"
    then show "snd (a, b) < int ?N" using rng [of a b] by simp
  qed
  have c1: "count_list d (CHR ''('') = length ps"
    using opens [of ?N] d(2) all_fst by simp
  have c2: "count_list d (CHR '')'') = length ps"
    using closes [of ?N] d(2) all_snd by simp
  have nest: "\<forall>n \<le> length d. count_list (take n d) (CHR '')'') \<le> count_list (take n d) (CHR ''('')"
  proof (intro allI impI)
    fix n
    have "length (filter (\<lambda>s. snd s < int n) ps) \<le> length (filter (\<lambda>s. fst s < int n) ps)"
    proof (rule length_filter_mono)
      fix s assume "s \<in> set ps" "snd s < int n"
      then show "fst s < int n" using rng [of "fst s" "snd s"] by simp
    qed
    then show "count_list (take n d) (CHR '')'') \<le> count_list (take n d) (CHR ''('')"
      using opens closes by simp
  qed
  show ?thesis using m d(2) a b c1 c2 nest by blast
qed

lemma main_output_defined: "\<exists>r. main_output sequence = Some r"
  using main_output_result [of sequence] by blast

subsection \<open>Split points on the filled table\<close>

lemma small_entries_Score:
  assumes "square N DP" "small_entries DP" "inside N a b"
  shows "- 1073741824 \<le> Score DP a b \<and> Score DP a b \<le> 1073741823"
proof -
  have a: "nat a < length DP" using assms(1,3) by (auto simp: square_def inside_def)
  then have row: "DP ! nat a \<in> set DP" by simp
  then have "int (length (DP ! nat a)) = N" using assms(1) by (simp add: square_def)
  then have "nat b < length (DP ! nat a)" using assms(3) by (auto simp: inside_def)
  then have "DP ! nat a ! nat b \<in> set (DP ! nat a)" by simp
  then show ?thesis using assms(2) row by (auto simp: small_entries_def Score_def)
qed

lemma small_entries_sums:
  assumes "square N DP" "small_entries DP" "inside N a b" "inside N c d"
  shows "int32 (Score DP c d + 1)" "int32 (Score DP a b + Score DP c d)"
    "int32 (Score DP a b + Score DP c d + 1)"
  using small_entries_Score [OF assms(1,2,3)] small_entries_Score [OF assms(1,2,4)]
  by (simp_all add: int32_def)

lemma table_optimal_split:
  assumes t: "nussinov_table sequence = Some DP"
    and r: "0 \<le> i" "i \<le> k" "k < j - 4" "j < int (length sequence)"
  shows "optimal_split DP sequence i j k \<longleftrightarrow> split_test DP sequence i j k"
proof -
  have "(if k = i then 0 else Score DP i (k - 1)) = score sequence i (k - 1)"
  proof (cases "k = i")
    case True
    then show ?thesis by (simp add: score_base)
  next
    case False
    then have "Score DP i (k - 1) = score sequence i (k - 1)"
      using r by (intro table_upper(2) [OF t]) simp_all
    then show ?thesis using False by simp
  qed
  moreover have "(if k - 1 < 0 then 0 else Score DP i (k - 1)) = score sequence i (k - 1)"
    using r by (intro table_left [OF t]) simp_all
  ultimately show ?thesis by (simp add: optimal_split_def split_test_def)
qed

section \<open>Properties of the program\<close>

text \<open>
  C9: the score computation \<open>OPT\<close> is total. It is defined by a terminating recursion, and
  for every sequence, whatever its symbols, and all indices \<open>0 \<le> i \<le> j < N\<close> it returns
  a value: no read leaves the sequence.
\<close>

theorem OPT_returns:
  "0 \<le> i \<Longrightarrow> i \<le> j \<Longrightarrow> j < int (length sequence) \<Longrightarrow> \<exists>v. OPT i j sequence DP = Some v"
  using OPT_total [of i j sequence DP] by blast

theorem OPT_returns_witness:
  "(0::int) \<le> 0 \<and> (0::int) \<le> 6 \<and> 6 < int (length ''AUXUAUA'') \<and>
   (\<exists>v. OPT 0 6 ''AUXUAUA'' [] = Some v)"
  using OPT_returns [of 0 6 "''AUXUAUA''" "[]"] by simp

text \<open>
  C4: the recurrence evaluator is to read the sub-scores from the score table. \<open>OPT\<close> does
  not: on the sequence \<open>AUAUAUA\<close> and the window \<open>(0, 6)\<close> it returns 1 from a table of
  zeros and from a table holding 9 everywhere, where reading \<open>DP[0][5]\<close> would give 9.
\<close>

theorem OPT_recomputes_example:
  "OPT 0 6 ''AUAUAUA'' (replicate 7 (replicate 7 0)) = Some 1 \<and>
   OPT 0 6 ''AUAUAUA'' (replicate 7 (replicate 7 9)) = Some 1 \<and>
   cell (replicate 7 (replicate 7 9)) 0 5 = Some 9"
  by code_simp

text \<open>
  C2: for every sequence the table that \<open>nussinov\<close> fills exists, and for every window
  \<open>0 \<le> i \<le> j < N\<close> its entry is read inside the table and equals the Nussinov recurrence
  over the table's own entries: 0 when \<open>j - i \<le> 4\<close>, otherwise the maximum of
  \<open>Score(i, j - 1)\<close> and of \<open>1 + Score(i, t - 1) + Score(t + 1, j - 1)\<close> over the compatible
  \<open>t\<close> in \<open>[i, j - 5]\<close>, with \<open>Score(i, t - 1)\<close> taken as 0 when \<open>t = i\<close>.
\<close>

theorem table_is_recurrence:
  "\<exists>DP. nussinov_table sequence = Some DP \<and>
     (\<forall>i j. 0 \<le> i \<and> i \<le> j \<and> j < int (length sequence) \<longrightarrow>
        cell DP i j = Some (Score DP i j) \<and>
        Score DP i j = recurrence sequence (Score DP) i j)"
proof -
  obtain DP where t: "nussinov_table sequence = Some DP"
    using nussinov_table_cells [of sequence] by blast
  have "cell DP i j = Some (Score DP i j) \<and> Score DP i j = recurrence sequence (Score DP) i j"
    if "0 \<le> i" "i \<le> j" "j < int (length sequence)" for i j
    using table_upper [OF t that] table_recurrence [OF t that] by simp
  then show ?thesis using t by blast
qed

theorem table_is_recurrence_witness:
  "(0::int) \<le> 0 \<and> (0::int) \<le> 6 \<and> 6 < int (length ''AUAUAUA'') \<and>
   (\<exists>DP. nussinov_table ''AUAUAUA'' = Some DP \<and> cell DP 0 6 = Some (Score DP 0 6) \<and>
      Score DP 0 6 = recurrence ''AUAUAUA'' (Score DP) 0 6)"
  using table_is_recurrence [of "''AUAUAUA''"] by auto

text \<open>
  C10: in the table that \<open>nussinov\<close> hands to \<open>traceback\<close> (zero-initialised, filled, then
  mirrored), every cell \<open>DP[i][i - 1]\<close> with \<open>1 \<le> i < N\<close> is 0.
\<close>

theorem subdiagonal_zero:
  "\<exists>DP. nussinov_table sequence = Some DP \<and>
     (\<forall>i. 1 \<le> i \<and> i < int (length sequence) \<longrightarrow> cell DP i (i - 1) = Some 0)"
proof -
  obtain DP where t: "nussinov_table sequence = Some DP"
    and c: "\<forall>a b. inside (int (length sequence)) a b \<longrightarrow>
              cell DP a b = Some (if a \<le> b then score sequence a b else score sequence b a)"
    using nussinov_table_cells [of sequence] by blast
  have "cell DP i (i - 1) = Some 0" if i: "1 \<le> i" "i < int (length sequence)" for i
  proof -
    have "inside (int (length sequence)) i (i - 1)" using i by (simp add: inside_def)
    then have "cell DP i (i - 1) = Some (score sequence (i - 1) i)" using c by simp
    then show ?thesis by (simp add: score_base)
  qed
  then show ?thesis using t by blast
qed

theorem subdiagonal_zero_witness:
  "(1::int) \<le> 3 \<and> 3 < int (length ''GGGAAAUCC'') \<and>
   (\<exists>DP. nussinov_table ''GGGAAAUCC'' = Some DP \<and> cell DP 3 (3 - 1) = Some 0)"
proof -
  obtain DP where t: "nussinov_table ''GGGAAAUCC'' = Some DP"
    and z: "\<forall>i. 1 \<le> i \<and> i < int (length ''GGGAAAUCC'') \<longrightarrow> cell DP i (i - 1) = Some 0"
    using subdiagonal_zero [of "''GGGAAAUCC''"] by blast
  have "cell DP 3 (3 - 1) = Some 0" using z [rule_format, of 3] by simp
  then show ?thesis using t by simp
qed

text \<open>
  C1: for every sequence of length \<open>N \<ge> 1\<close>, \<open>nussinov\<close> fills its table and returns a
  structure, and the number of pairs in it is the table's entry for the full window
  \<open>(0, N - 1)\<close>.
\<close>

theorem pair_count_is_score:
  "1 \<le> length sequence \<Longrightarrow>
   \<exists>DP ps. nussinov_table sequence = Some DP \<and> nussinov sequence = Some ps \<and>
     cell DP 0 (int (length sequence) - 1) = Some (int (length ps))"
proof -
  assume n: "1 \<le> length sequence"
  obtain DP ps where r: "nussinov_table sequence = Some DP" "nussinov sequence = Some ps"
    "int (length ps) = score sequence 0 (int (length sequence) - 1)"
    using nussinov_result [of sequence] by blast
  have "cell DP 0 (int (length sequence) - 1) = Some (score sequence 0 (int (length sequence) - 1))"
    using n by (intro table_upper(1) [OF r(1)]) auto
  then show ?thesis using r by simp
qed

theorem pair_count_is_score_witness:
  "1 \<le> length ''GGAAAAACC'' \<and>
   (\<exists>DP ps. nussinov_table ''GGAAAAACC'' = Some DP \<and> nussinov ''GGAAAAACC'' = Some ps \<and>
      cell DP 0 (int (length ''GGAAAAACC'') - 1) = Some (int (length ps)))"
  using pair_count_is_score [of "''GGAAAAACC''"] by simp

text \<open>
  C3: for every sequence the structure that \<open>nussinov\<close> returns satisfies the Pairing
  invariant: every index is in at most one pair, every pair \<open>(i, j)\<close> has \<open>j - i \<ge> 5\<close>, the
  symbols at \<open>i\<close> and \<open>j\<close> are one of (A,U), (U,A), (C,G), (G,C), and no two pairs cross.
\<close>

theorem pairing_invariant_holds:
  "\<exists>ps. nussinov sequence = Some ps \<and> pairing_invariant sequence ps"
  using nussinov_result [of sequence] within_pairing_invariant [of sequence] by blast

theorem pairing_invariant_holds_witness:
  "nussinov ''GGAAAAACC'' = Some [(0, 8), (1, 7)] \<and>
   pairing_invariant ''GGAAAAACC'' [(0, 8), (1, 7)]"
proof -
  have e: "nussinov ''GGAAAAACC'' = Some [(0, 8), (1, 7)]" by code_simp
  then show ?thesis using pairing_invariant_holds [of "''GGAAAAACC''"] by simp
qed

text \<open>
  C8: for every sequence of length at most 5, the empty one included, the structure is
  empty and the dot-bracket string is all dots, of the length of the sequence; the witness
  is the sequence \<open>AAAAA\<close>.
\<close>

theorem short_sequence_unpaired:
  "length sequence \<le> 5 \<Longrightarrow>
   main_output sequence = Some ([], replicate (length sequence) (CHR ''.''))"
proof -
  assume n: "length sequence \<le> 5"
  obtain ps where r: "nussinov sequence = Some ps"
    "int (length ps) = score sequence 0 (int (length sequence) - 1)"
    using nussinov_result [of sequence] by blast
  have "score sequence 0 (int (length sequence) - 1) = 0"
    using n by (intro score_base) simp
  then have "ps = []" using r(2) by simp
  then show ?thesis using r(1) by (simp add: main_output_def write_structure_def)
qed

theorem short_sequence_unpaired_witness:
  "length ''AAAAA'' \<le> 5 \<and> main_output ''AAAAA'' = Some ([], ''.....'')"
  using short_sequence_unpaired [of "''AAAAA''"] by simp

text \<open>
  C6: for every sequence, the dot-bracket string rendered from the structure that
  \<open>nussinov\<close> returns has the length of the sequence, holds an opening bracket at
  \<open>min(i, j)\<close> and a closing one at \<open>max(i, j)\<close> of each pair and a dot at every position
  in no pair, has as many opening brackets as closing ones as pairs, and no prefix of it
  holds more closing brackets than opening ones.
\<close>

theorem dot_bracket_rendering:
  "\<exists>ps d. main_output sequence = Some (ps, d) \<and>
     length d = length sequence \<and>
     (\<forall>(i, j) \<in> set ps. d ! nat (min i j) = CHR ''('' \<and> d ! nat (max i j) = CHR '')'') \<and>
     (\<forall>p < length d. int p \<notin> set (indices ps) \<longrightarrow> d ! p = CHR ''.'') \<and>
     count_list d (CHR ''('') = length ps \<and>
     count_list d (CHR '')'') = length ps \<and>
     (\<forall>n \<le> length d. count_list (take n d) (CHR '')'') \<le> count_list (take n d) (CHR ''(''))"
  by (rule main_output_result)

theorem dot_bracket_rendering_witness:
  "main_output ''GGAAAAACC'' = Some ([(0, 8), (1, 7)], ''((.....))'') \<and>
   length ''((.....))'' = length ''GGAAAAACC'' \<and>
   count_list ''((.....))'' (CHR ''('') = length [(0::int, 8::int), (1, 7)] \<and>
   count_list ''((.....))'' (CHR '')'') = length [(0::int, 8::int), (1, 7)] \<and>
   count_list (take 8 ''((.....))'') (CHR '')'') \<le> count_list (take 8 ''((.....))'') (CHR ''('')"
proof -
  have e: "main_output ''GGAAAAACC'' = Some ([(0, 8), (1, 7)], ''((.....))'')" by code_simp
  obtain ps d where r: "main_output ''GGAAAAACC'' = Some (ps, d)"
    "length d = length ''GGAAAAACC''"
    "count_list d (CHR ''('') = length ps" "count_list d (CHR '')'') = length ps"
    "\<forall>n \<le> length d. count_list (take n d) (CHR '')'') \<le> count_list (take n d) (CHR ''('')"
    using dot_bracket_rendering [of "''GGAAAAACC''"] by blast
  have "ps = [(0, 8), (1, 7)]" "d = ''((.....))''" using r(1) e by simp_all
  then show ?thesis using e r(2-4) r(5) [rule_format, of 8] by simp
qed

text \<open>
  C5 as stated fails: \<open>traceback\<close> has no assertion. On the sequence \<open>AAAAAA\<close> and a table
  whose entry for the window \<open>(0, 5)\<close> is 1 and whose other entries are 0, the skip equality
  fails and the only split point, 0, fails the predicate; \<open>traceback\<close> returns normally,
  with nothing appended.
\<close>

theorem traceback_unmatched_counterexample:
  "Score ((replicate 5 0 @ [1]) # replicate 5 (replicate 6 0)) 0 5
     \<noteq> Score ((replicate 5 0 @ [1]) # replicate 5 (replicate 6 0)) 0 4 \<and>
   \<not> optimal_split ((replicate 5 0 @ [1]) # replicate 5 (replicate 6 0)) ''AAAAAA'' 0 5 0 \<and>
   traceback 0 5 []
     ((replicate 5 0 @ [1]) # replicate 5 (replicate 6 0)) ''AAAAAA'' = Some []"
  by code_simp

text \<open>
  C5, amended: on a square table whose entries lie between \<open>-2^30\<close> and \<open>2^30 - 1\<close>, so
  that no sum the loop forms leaves the 32-bit range, when the skip equality of a window
  fails and no split point in \<open>[i, j - 5]\<close> passes the test of the loop, \<open>traceback\<close>
  appends no pair for the window and returns the structure as it was; it does not fail.
\<close>

theorem traceback_unmatched_returns:
  assumes "square N DP" "N = int (length sequence)" "0 \<le> i" "i < j" "j < N"
    and "Score DP i j \<noteq> Score DP i (j - 1)"
    and "\<forall>t \<in> set [i..j - 5]. \<not> split_test DP sequence i j t"
    and "small_entries DP"
  shows "traceback i j st DP sequence = Some st"
proof -
  have "\<forall>t. i \<le> t \<and> t < j - 4 \<longrightarrow> \<not> split_test DP sequence i j t"
    using assms(7) by auto
  then have "traceback_loop i j i st DP sequence = Some st"
    using assms by (intro traceback_loop_miss [where N = N]) simp_all
  then show ?thesis
    using traceback_unfold [OF assms(1,3,4,5), of st sequence] assms(6) by simp
qed

theorem traceback_unmatched_returns_witness:
  "square 9 ((replicate 8 0 @ [6]) # (replicate 7 0 @ [5, 0]) # replicate 7 (replicate 9 0)) \<and>
   small_entries ((replicate 8 0 @ [6]) # (replicate 7 0 @ [5, 0]) # replicate 7 (replicate 9 0)) \<and>
   Score ((replicate 8 0 @ [6]) # (replicate 7 0 @ [5, 0]) # replicate 7 (replicate 9 0)) 1 7
     \<noteq> Score ((replicate 8 0 @ [6]) # (replicate 7 0 @ [5, 0]) # replicate 7 (replicate 9 0)) 1 6 \<and>
   \<not> split_test ((replicate 8 0 @ [6]) # (replicate 7 0 @ [5, 0]) # replicate 7 (replicate 9 0)) ''GGAAAAACC'' 1 7 1 \<and>
   \<not> split_test ((replicate 8 0 @ [6]) # (replicate 7 0 @ [5, 0]) # replicate 7 (replicate 9 0)) ''GGAAAAACC'' 1 7 2 \<and>
   traceback 1 7 [(0, 8)]
     ((replicate 8 0 @ [6]) # (replicate 7 0 @ [5, 0]) # replicate 7 (replicate 9 0)) ''GGAAAAACC'' = Some [(0, 8)]"
  (is "square 9 ?T \<and> _ \<and> _ \<and> _ \<and> _ \<and> _")
proof -
  have sq: "square 9 ?T" by code_simp
  have sm: "small_entries ?T" by code_simp
  have ne: "Score ?T 1 7 \<noteq> Score ?T 1 6" by code_simp
  have s1: "\<not> split_test ?T ''GGAAAAACC'' 1 7 1" by code_simp
  have s2: "\<not> split_test ?T ''GGAAAAACC'' 1 7 2" by code_simp
  have up: "[1..7 - 5] = [1, 2::int]" by code_simp
  have miss: "\<forall>t \<in> set [1..7 - 5]. \<not> split_test ?T ''GGAAAAACC'' 1 7 t"
    unfolding up using s1 s2 by simp
  have "traceback 1 7 [(0, 8)] ?T ''GGAAAAACC'' = Some [(0, 8)]"
  proof (rule traceback_unmatched_returns [where N = 9])
    show "square 9 ?T" by (rule sq)
    show "9 = int (length ''GGAAAAACC'')" by simp
    show "(0::int) \<le> 1" "(1::int) < 7" "(7::int) < 9" by simp_all
    show "Score ?T 1 7 \<noteq> Score ?T 1 (7 - 1)" using ne by simp
    show "\<forall>t \<in> set [1..7 - 5]. \<not> split_test ?T ''GGAAAAACC'' 1 7 t" by (rule miss)
    show "small_entries ?T" by (rule sm)
  qed
  then show ?thesis using sq sm ne s1 s2 by simp
qed

text \<open>
  C7: the program is a function of the sequence, so its output exists and is unique; and
  on the table that \<open>nussinov\<close> builds, when the skip equality of a window fails and
  \<open>t0\<close> is the smallest split point in \<open>[i, j - 5]\<close> that satisfies the predicate and the
  optimality equation, \<open>traceback\<close> appends the pair \<open>(t0, j)\<close> and nothing else for this
  window: every further pair lies in one of the sub-windows \<open>i .. t0 - 1\<close> and
  \<open>t0 + 1 .. j - 1\<close>, whatever larger split points satisfy the equation too.
\<close>

theorem leftmost_split_chosen:
  assumes "nussinov_table sequence = Some DP" "0 \<le> i" "i < j" "j < int (length sequence)"
    and "Score DP i j \<noteq> Score DP i (j - 1)"
    and "t0 \<in> set [i..j - 5]" "optimal_split DP sequence i j t0"
    and "\<forall>t \<in> set [i..t0 - 1]. \<not> optimal_split DP sequence i j t"
  shows "(\<exists>!r. main_output sequence = Some r) \<and>
         (\<exists>ps1 ps2. traceback i j st DP sequence = Some (st @ (t0, j) # ps1 @ ps2) \<and>
            within sequence i (t0 - 1) ps1 \<and> within sequence (t0 + 1) (j - 1) ps2)"
proof -
  let ?N = "int (length sequence)"
  note t = assms(1)
  have sq: "square ?N DP" using nussinov_table_cells [of sequence] t by auto
  have t0: "i \<le> t0" "t0 < j - 4" using assms(6) by simp_all
  have hit: "split_test DP sequence i j t0"
    using table_optimal_split [OF t assms(2) t0 assms(4)] assms(7) by simp
  have miss: "\<forall>u. i \<le> u \<and> u < t0 \<longrightarrow> \<not> split_test DP sequence i j u"
  proof (intro allI impI)
    fix u assume u: "i \<le> u \<and> u < t0"
    then have "\<not> optimal_split DP sequence i j u" using assms(8) by simp
    moreover have "u < j - 4" using u t0 by simp
    ultimately show "\<not> split_test DP sequence i j u"
      using table_optimal_split [OF t assms(2) _ _ assms(4), of u] u by simp
  qed
  have lp: "traceback_loop i j i st DP sequence = emit i j t0 st DP sequence"
    using t0 hit by (intro traceback_loop_hit [OF sq refl assms(2) _ assms(4) _ _ _ miss]) simp_all
  obtain ps1 where ps1:
    "traceback i (t0 - 1) (st @ [(t0, j)]) DP sequence = Some ((st @ [(t0, j)]) @ ps1)"
    "within sequence i (t0 - 1) ps1"
    using traceback_result [OF sq refl, of i "t0 - 1" "st @ [(t0, j)]"] assms(2,4) t0 by auto
  obtain ps2 where ps2:
    "traceback (t0 + 1) (j - 1) ((st @ [(t0, j)]) @ ps1) DP sequence
       = Some (((st @ [(t0, j)]) @ ps1) @ ps2)"
    "within sequence (t0 + 1) (j - 1) ps2"
    using traceback_result [OF sq refl, of "t0 + 1" "j - 1" "(st @ [(t0, j)]) @ ps1"]
      assms(2,4) t0 by auto
  have "traceback i j st DP sequence = Some (st @ (t0, j) # ps1 @ ps2)"
    using traceback_unfold [OF sq assms(2,3,4), of st sequence] assms(5) lp ps1(1) ps2(1)
    by (simp add: emit_def)
  moreover have "\<exists>!r. main_output sequence = Some r"
    using main_output_defined [of sequence] by auto
  ultimately show ?thesis using ps1(2) ps2(2) by blast
qed

theorem leftmost_split_chosen_witness:
  "nussinov_table ''CAACCCCU'' =
     Some (replicate 3 (replicate 7 0 @ [1]) @ replicate 4 (replicate 8 0) @ [[1, 1, 1] @ replicate 5 0]) \<and>
   \<not> optimal_split
       (replicate 3 (replicate 7 0 @ [1]) @ replicate 4 (replicate 8 0) @ [[1, 1, 1] @ replicate 5 0]) ''CAACCCCU'' 0 7 0 \<and>
   optimal_split
       (replicate 3 (replicate 7 0 @ [1]) @ replicate 4 (replicate 8 0) @ [[1, 1, 1] @ replicate 5 0]) ''CAACCCCU'' 0 7 1 \<and>
   optimal_split
       (replicate 3 (replicate 7 0 @ [1]) @ replicate 4 (replicate 8 0) @ [[1, 1, 1] @ replicate 5 0]) ''CAACCCCU'' 0 7 2 \<and>
   (\<exists>ps1 ps2. traceback 0 7 []
       (replicate 3 (replicate 7 0 @ [1]) @ replicate 4 (replicate 8 0) @ [[1, 1, 1] @ replicate 5 0]) ''CAACCCCU''
       = Some ((1, 7) # ps1 @ ps2) \<and>
     within ''CAACCCCU'' 0 0 ps1 \<and> within ''CAACCCCU'' 2 6 ps2)"
  (is "nussinov_table ?s = Some ?T \<and> _ \<and> _ \<and> _ \<and> _")
proof -
  have t: "nussinov_table ?s = Some ?T" by code_simp
  have o0: "\<not> optimal_split ?T ?s 0 7 0" by code_simp
  have o1: "optimal_split ?T ?s 0 7 1" by code_simp
  have o2: "optimal_split ?T ?s 0 7 2" by code_simp
  have up1: "[0..7 - 5] = [0, 1, 2::int]" by code_simp
  have up2: "[0..1 - 1] = [0::int]" by code_simp
  have "(\<exists>!r. main_output ?s = Some r) \<and>
        (\<exists>ps1 ps2. traceback 0 7 [] ?T ?s = Some ([] @ (1, 7) # ps1 @ ps2) \<and>
           within ?s 0 (1 - 1) ps1 \<and> within ?s (1 + 1) (7 - 1) ps2)"
  proof (rule leftmost_split_chosen [OF t])
    show "(0::int) \<le> 0" "(0::int) < 7" "7 < int (length ?s)" by simp_all
    show "Score ?T 0 7 \<noteq> Score ?T 0 (7 - 1)" by code_simp
    show "1 \<in> set [0..7 - 5]" unfolding up1 by simp
    show "optimal_split ?T ?s 0 7 1" by (rule o1)
    show "\<forall>t \<in> set [0..1 - 1]. \<not> optimal_split ?T ?s 0 7 t" unfolding up2 using o0 by simp
  qed
  then show ?thesis using t o0 o1 o2 by simp
qed

end
